theory Spec2Isabelle
  imports Main "HOL-Library.AList" "HOL-Library.Sublist"
begin

section \<open>psswrd: N-gram table, backoff sampling and template-driven password assembly\<close>

text \<open>
  A shallow embedding of \<^verbatim>\<open>src/psswrd/psswrd.py\<close>: the class \<^verbatim>\<open>Ngram\<close>
  (\<^verbatim>\<open>__init__\<close>, \<^verbatim>\<open>__getitem__\<close>, \<^verbatim>\<open>phrase\<close>) and the function
  \<^verbatim>\<open>generate_password\<close>.

  Conventions of the embedding.
  \<^item> Python strings are \<open>string\<close> (lists of \<open>char\<close>); a character stands for the code
    point of the same number, so the text covered has code points below 256.
    \<^verbatim>\<open>str.upper\<close> and \<^verbatim>\<open>str.lower\<close> return strings, and the list \<^verbatim>\<open>pwd\<close> of
    \<^verbatim>\<open>generate_password\<close> is a list of strings that is joined at the end, because the
    uppercase form of one character can be two characters.
  \<^item> Python integers are \<open>int\<close>; the order \<open>n\<close> of a model may be zero or negative, and
    slicing and indexing follow Python's rules for negative and out-of-range positions.
  \<^item> A \<^verbatim>\<open>dict\<close> (also \<^verbatim>\<open>defaultdict\<close> and \<^verbatim>\<open>Counter\<close>) keeps its keys in insertion order,
    and that order is observable through \<^verbatim>\<open>list(d.keys())\<close>; it is an association list in
    which a new key is appended and an existing key is updated in place.
  \<^item> Exceptions are values: a function that may raise returns \<open>error + 'a\<close>.
  \<^item> The module \<^verbatim>\<open>random\<close> is an explicit random source: a tape of natural numbers and a
    read position. One primitive draw below a bound \<open>k\<close> reads the next tape entry modulo
    \<open>k\<close> and advances the position by one.
\<close>

subsection \<open>Python primitives\<close>

datatype error = IndexError | KeyError | ValueError

text \<open>The start or stop of a slice, clamped as Python clamps it.\<close>

definition slice_pos :: "nat \<Rightarrow> int \<Rightarrow> nat" where
  "slice_pos len i = (if i < 0 then nat (max (int len + i) 0) else min (nat i) len)"

text \<open>\<^verbatim>\<open>s[a:b]\<close>\<close>

definition py_slice :: "'a list \<Rightarrow> int \<Rightarrow> int \<Rightarrow> 'a list" where
  "py_slice s a b =
     (let start = slice_pos (length s) a; stop = slice_pos (length s) b
      in take (stop - start) (drop start s))"

text \<open>\<^verbatim>\<open>s[a:]\<close>\<close>

definition py_slice_from :: "'a list \<Rightarrow> int \<Rightarrow> 'a list" where
  "py_slice_from s a = drop (slice_pos (length s) a) s"

text \<open>\<^verbatim>\<open>s[i]\<close>\<close>

definition py_index :: "'a list \<Rightarrow> int \<Rightarrow> error + 'a" where
  "py_index s i =
     (let len = int (length s); j = (if i < 0 then len + i else i)
      in if 0 \<le> j \<and> j < len then Inr (s ! nat j) else Inl IndexError)"

text \<open>\<^verbatim>\<open>xs.pop()\<close>: removes and returns the last element.\<close>

definition pop :: "'a list \<Rightarrow> error + ('a \<times> 'a list)" where
  "pop xs = (if xs = [] then Inl IndexError else Inr (last xs, butlast xs))"

text \<open>
  \<^verbatim>\<open>c.upper()\<close> and \<^verbatim>\<open>c.lower()\<close> on a string of one character, by code point: the
  letters a-z and A-Z, the letters of U+00C0 to U+00DE and of U+00E0 to U+00FE (without
  the signs U+00D7 and U+00F7), and U+00DF, whose uppercase form is the two characters
  \<open>SS\<close>. The uppercase forms of U+00B5 and of U+00FF are code points above 255, which
  \<open>char\<close> does not hold: the model leaves these two characters as they are, and what is
  stated about the case of a letter is stated for ASCII text.
\<close>

definition upper :: "char \<Rightarrow> string" where
  "upper c =
     (let k = (of_char c :: nat) in
      if 97 \<le> k \<and> k \<le> 122 then [char_of (k - 32)]
      else if k = 223 then ''SS''
      else if 224 \<le> k \<and> k \<le> 254 \<and> k \<noteq> 247 then [char_of (k - 32)]
      else [c])"

definition lower :: "char \<Rightarrow> string" where
  "lower c =
     (let k = (of_char c :: nat) in
      if 65 \<le> k \<and> k \<le> 90 then [char_of (k + 32)]
      else if 192 \<le> k \<and> k \<le> 222 \<and> k \<noteq> 215 then [char_of (k + 32)]
      else [c])"

subsection \<open>The random source\<close>

record rng =
  tape :: "nat \<Rightarrow> nat"
  pos :: nat

text \<open>One draw from \<open>{0..<k}\<close>.\<close>

definition randbelow :: "nat \<Rightarrow> rng \<Rightarrow> nat \<times> rng" where
  "randbelow k g = (tape g (pos g) mod k, g\<lparr>pos := Suc (pos g)\<rparr>)"

text \<open>\<^verbatim>\<open>random.choice(seq)\<close>: \<^verbatim>\<open>seq[randbelow(len(seq))]\<close>, IndexError on an empty sequence.\<close>

definition choice :: "'a list \<Rightarrow> rng \<Rightarrow> error + ('a \<times> rng)" where
  "choice seq g =
     (if seq = [] then Inl IndexError
      else (let (k, g') = randbelow (length seq) g in Inr (seq ! k, g')))"

text \<open>\<^verbatim>\<open>itertools.accumulate(weights)\<close>: the running sums.\<close>

fun accumulate :: "nat \<Rightarrow> nat list \<Rightarrow> nat list" where
  "accumulate a [] = []"
| "accumulate a (w # ws) = (a + w) # accumulate (a + w) ws"

text \<open>\<^verbatim>\<open>bisect(cum, x, 0, hi)\<close> on a sorted list: how many of the first \<open>hi\<close> entries are \<open>\<le> x\<close>.\<close>

definition bisect :: "nat list \<Rightarrow> nat \<Rightarrow> nat \<Rightarrow> nat" where
  "bisect cum x hi = length (takeWhile (\<lambda>w. w \<le> x) (take hi cum))"

text \<open>
  \<^verbatim>\<open>random.choices(population, weights=weights)[0]\<close>. The library computes the cumulative
  weights, raises ValueError when their number differs from the population's, IndexError
  when there are none, ValueError when the total is not positive, and returns
  \<^verbatim>\<open>population[bisect(cum_weights, random() * total, 0, n - 1)]\<close>. With integer
  weights the search only depends on the integer part of \<^verbatim>\<open>random() * total\<close>, which is
  one draw below \<open>total\<close>.
\<close>

definition choices :: "'a list \<Rightarrow> nat list \<Rightarrow> rng \<Rightarrow> error + ('a \<times> rng)" where
  "choices population weights g =
     (let cum_weights = accumulate 0 weights in
      if length cum_weights \<noteq> length population then Inl ValueError
      else if cum_weights = [] then Inl IndexError
      else if last cum_weights = 0 then Inl ValueError
      else (let (r, g') = randbelow (last cum_weights) g
            in Inr (population ! bisect cum_weights r (length population - 1), g')))"

subsection \<open>class Ngram\<close>

type_synonym counter = "(char \<times> nat) list"
type_synonym ngram_table = "(string \<times> counter) list"

text \<open>The fields \<^verbatim>\<open>self.table\<close> and \<^verbatim>\<open>self.n\<close>.\<close>

record ngram =
  table :: ngram_table
  ngram_n :: int

text \<open>\<^verbatim>\<open>ctr[nxt] += 1\<close> on a Counter: a missing key counts as 0.\<close>

definition counter_incr :: "char \<Rightarrow> counter \<Rightarrow> counter" where
  "counter_incr nxt ctr =
     AList.update nxt ((case map_of ctr nxt of None \<Rightarrow> 0 | Some w \<Rightarrow> w) + 1) ctr"

text \<open>\<^verbatim>\<open>table[pre][nxt] += 1\<close> on a defaultdict(Counter): a missing key gets an empty Counter.\<close>

definition table_incr :: "string \<Rightarrow> char \<Rightarrow> ngram_table \<Rightarrow> ngram_table" where
  "table_incr pre nxt t =
     AList.update pre (counter_incr nxt (case map_of t pre of None \<Rightarrow> [] | Some ctr \<Rightarrow> ctr)) t"

text \<open>
  The inner loop of \<^verbatim>\<open>__init__\<close>:
  \<^verbatim>\<open>while pre: table[pre][nxt] += 1; pre = pre[1:]\<close>
\<close>

fun suffix_loop :: "string \<Rightarrow> char \<Rightarrow> ngram_table \<Rightarrow> ngram_table" where
  "suffix_loop [] nxt t = t"
| "suffix_loop (c # cs) nxt t = suffix_loop cs nxt (table_incr (c # cs) nxt t)"

text \<open>
  The outer loop of \<^verbatim>\<open>__init__\<close> over the values of \<^verbatim>\<open>range(0, len(corpus) - n)\<close>:
  \<^verbatim>\<open>pre = corpus[i : i + n]; nxt = corpus[i + n]\<close> and then the inner loop.
\<close>

fun init_loop :: "string \<Rightarrow> int \<Rightarrow> nat list \<Rightarrow> ngram_table \<Rightarrow> error + ngram_table" where
  "init_loop corpus n [] t = Inr t"
| "init_loop corpus n (i # is) t =
     (let pre = py_slice corpus (int i) (int i + n) in
      case py_index corpus (int i + n) of
        Inl e \<Rightarrow> Inl e
      | Inr nxt \<Rightarrow> init_loop corpus n is (suffix_loop pre nxt t))"

text \<open>\<^verbatim>\<open>Ngram(corpus, n)\<close>\<close>

definition Ngram :: "string \<Rightarrow> int \<Rightarrow> error + ngram" where
  "Ngram corpus n =
     (case init_loop corpus n [0 ..< nat (int (length corpus) - n)] [] of
        Inl e \<Rightarrow> Inl e
      | Inr t \<Rightarrow> Inr \<lparr>table = t, ngram_n = n\<rparr>)"

text \<open>The weighted draw \<^verbatim>\<open>choices(list(ctr.keys()), weights=ctr.values())[0]\<close>.\<close>

definition draw :: "counter \<Rightarrow> rng \<Rightarrow> error + (char \<times> rng)" where
  "draw ctr g = choices (map fst ctr) (map snd ctr) g"

text \<open>
  The last two lines of \<^verbatim>\<open>__getitem__\<close>:
  \<^verbatim>\<open>ctr = table[choice(list(table.keys()))]\<close> and the weighted draw from it.
\<close>

definition fallback :: "ngram_table \<Rightarrow> rng \<Rightarrow> error + (char \<times> rng)" where
  "fallback t g =
     (case choice (map fst t) g of
        Inl e \<Rightarrow> Inl e
      | Inr (k, g') \<Rightarrow>
          (case map_of t k of None \<Rightarrow> Inl KeyError | Some ctr \<Rightarrow> draw ctr g'))"

text \<open>
  The loop of \<^verbatim>\<open>__getitem__\<close>: while \<^verbatim>\<open>pre\<close> is not empty, look \<^verbatim>\<open>table[pre]\<close> up; on a
  hit return the weighted draw, on KeyError continue with \<^verbatim>\<open>pre[1:]\<close>. When the loop ends
  without a hit, the fallback runs.
\<close>

fun getitem_loop :: "ngram_table \<Rightarrow> string \<Rightarrow> rng \<Rightarrow> error + (char \<times> rng)" where
  "getitem_loop t [] g = fallback t g"
| "getitem_loop t (c # cs) g =
     (case map_of t (c # cs) of
        Some ctr \<Rightarrow> draw ctr g
      | None \<Rightarrow> getitem_loop t cs g)"

text \<open>\<^verbatim>\<open>self[pre]\<close>, with \<^verbatim>\<open>pre = pre[-self.n:]\<close> first.\<close>

definition getitem :: "ngram \<Rightarrow> string \<Rightarrow> rng \<Rightarrow> error + (char \<times> rng)" where
  "getitem M pre g = getitem_loop (table M) (py_slice_from pre (- ngram_n M)) g"


text \<open>The loop of \<^verbatim>\<open>phrase\<close>: \<^verbatim>\<open>s += self[s]\<close>, \<open>k\<close> times.\<close>

fun phrase_loop :: "ngram \<Rightarrow> nat \<Rightarrow> string \<Rightarrow> rng \<Rightarrow> error + (string \<times> rng)" where
  "phrase_loop M 0 s g = Inr (s, g)"
| "phrase_loop M (Suc k) s g =
     (case getitem M s g of
        Inl e \<Rightarrow> Inl e
      | Inr (c, g') \<Rightarrow> phrase_loop M k (s @ [c]) g')"

definition phrase :: "ngram \<Rightarrow> nat \<Rightarrow> rng \<Rightarrow> error + (string \<times> rng)" where
  "phrase M len g = phrase_loop M len [] g"

subsection \<open>generate_password\<close>

definition digits :: string where
  "digits = ''0123456789''"

definition punctuation :: string where
  "punctuation = ''!@#$%&*+-=?;''"

text \<open>
  The state of the template loop: the reversed phrase (a stack whose top is its last
  element), the list \<^verbatim>\<open>pwd\<close> of the strings appended so far, and the random source.
\<close>

type_synonym tstate = "string \<times> string list \<times> rng"

text \<open>The body of \<^verbatim>\<open>for c in template\<close>.\<close>

definition directive :: "char \<Rightarrow> tstate \<Rightarrow> error + tstate" where
  "directive c st =
     (case st of (phr, pwd, g) \<Rightarrow>
        if c = CHR ''u'' then
          (case pop phr of Inl e \<Rightarrow> Inl e
           | Inr (pc, phr') \<Rightarrow> Inr (phr', pwd @ [upper pc], g))
        else if c = CHR ''l'' then
          (case pop phr of Inl e \<Rightarrow> Inl e
           | Inr (pc, phr') \<Rightarrow> Inr (phr', pwd @ [[pc]], g))
        else if c = CHR ''m'' then
          (case pop phr of Inl e \<Rightarrow> Inl e
           | Inr (pc, phr') \<Rightarrow>
               (case choice [lower pc, upper pc] g of Inl e \<Rightarrow> Inl e
                | Inr (x, g') \<Rightarrow> Inr (phr', pwd @ [x], g')))
        else if c = CHR ''d'' then
          (case choice digits g of Inl e \<Rightarrow> Inl e
           | Inr (x, g') \<Rightarrow> Inr (phr, pwd @ [[x]], g'))
        else if c = CHR ''p'' then
          (case choice punctuation g of Inl e \<Rightarrow> Inl e
           | Inr (x, g') \<Rightarrow> Inr (phr, pwd @ [[x]], g'))
        else Inr (phr, pwd @ [[c]], g))"

fun for_template :: "string \<Rightarrow> tstate \<Rightarrow> error + tstate" where
  "for_template [] st = Inr st"
| "for_template (c # cs) st =
     (case directive c st of Inl e \<Rightarrow> Inl e | Inr st' \<Rightarrow> for_template cs st')"

text \<open>
  \<^verbatim>\<open>generate_password(ngram, template)\<close>: the phrase, the loop, and \<^verbatim>\<open>"".join(pwd)\<close>.
\<close>

definition generate_password :: "ngram \<Rightarrow> string \<Rightarrow> rng \<Rightarrow> error + (string \<times> rng)" where
  "generate_password M template g =
     (case phrase M (length template) g of
        Inl e \<Rightarrow> Inl e
      | Inr (phr, g1) \<Rightarrow>
          (case for_template template (rev phr, [], g1) of
             Inl e \<Rightarrow> Inl e
           | Inr (phr', pwd, g2) \<Rightarrow> Inr (concat pwd, g2)))"

subsection \<open>Notions used to state the properties\<close>

text \<open>The count that a table holds for a context and a next character, 0 when absent.\<close>

definition tcount :: "ngram_table \<Rightarrow> string \<Rightarrow> char \<Rightarrow> nat" where
  "tcount t k c =
     (case map_of t k of
        None \<Rightarrow> 0
      | Some ctr \<Rightarrow> (case map_of ctr c of None \<Rightarrow> 0 | Some w \<Rightarrow> w))"

text \<open>
  Following the specification's words: the observations of a corpus for a context \<open>k\<close>
  and a next character \<open>c\<close> are the start indices \<open>i\<close> from 0 to \<open>len(corpus) - n - 1\<close>
  whose window \<open>corpus[i : i+n]\<close> has \<open>k\<close> as a non-empty suffix and is followed by \<open>c\<close>.
\<close>

definition observations :: "string \<Rightarrow> nat \<Rightarrow> string \<Rightarrow> char \<Rightarrow> nat list" where
  "observations corpus n k c =
     filter (\<lambda>i. k \<noteq> [] \<and> suffix k (take n (drop i corpus)) \<and> corpus ! (i + n) = c)
       [0 ..< length corpus - n]"

text \<open>A counter as construction leaves it: not empty, one entry per character, positive counts.\<close>

definition wf_counter :: "char set \<Rightarrow> counter \<Rightarrow> bool" where
  "wf_counter A ctr =
     (ctr \<noteq> [] \<and> distinct (map fst ctr) \<and> (\<forall>p \<in> set ctr. fst p \<in> A \<and> 0 < snd p))"

definition wf_table :: "char set \<Rightarrow> ngram_table \<Rightarrow> bool" where
  "wf_table A t =
     (distinct (map fst t) \<and> (\<forall>p \<in> set t. fst p \<noteq> [] \<and> wf_counter A (snd p)))"

text \<open>The outcome of the weighted draw as a function of the number that the random source delivers.\<close>

definition drawn :: "counter \<Rightarrow> nat \<Rightarrow> char option" where
  "drawn ctr r =
     (case draw ctr \<lparr>tape = (\<lambda>i. r), pos = 0\<rparr> of Inl e \<Rightarrow> None | Inr (c, g') \<Rightarrow> Some c)"




text \<open>The directives that take a phrase letter, and those that draw from the random source.\<close>

definition takes_letter :: "char \<Rightarrow> bool" where
  "takes_letter c = (c = CHR ''u'' \<or> c = CHR ''l'' \<or> c = CHR ''m'')"

definition draws_random :: "char \<Rightarrow> bool" where
  "draws_random c = (c = CHR ''m'' \<or> c = CHR ''d'' \<or> c = CHR ''p'')"

definition nletters :: "string \<Rightarrow> nat" where
  "nletters template = length (filter takes_letter template)"

definition ndraws :: "string \<Rightarrow> nat" where
  "ndraws template = length (filter draws_random template)"

text \<open>
  The string that one template position appends to \<^verbatim>\<open>pwd\<close>, from the phrase letter and
  the number drawn for it.
\<close>

definition emit :: "char \<Rightarrow> char \<Rightarrow> nat \<Rightarrow> string" where
  "emit c pc r =
     (if c = CHR ''u'' then upper pc
      else if c = CHR ''l'' then [pc]
      else if c = CHR ''m'' then [lower pc, upper pc] ! (r mod 2)
      else if c = CHR ''d'' then [digits ! (r mod 10)]
      else if c = CHR ''p'' then [punctuation ! (r mod 12)]
      else [c])"

text \<open>ASCII text: every code point is below 128, as \<^verbatim>\<open>str.isascii()\<close> tests it.\<close>

definition ascii :: "string \<Rightarrow> bool" where
  "ascii s = (\<forall>c \<in> set s. (of_char c :: nat) < 128)"



subsection \<open>Slices, indices and the invariant of the table\<close>

lemma slice_pos_nat [simp]: "slice_pos len (int i) = min i len"
  by (simp add: slice_pos_def)

lemma py_slice_nonneg: "0 \<le> n \<Longrightarrow> py_slice s (int i) (int i + n) = take (nat n) (drop i s)"
proof -
  assume n: "0 \<le> n"
  have e: "int i + n = int (i + nat n)" using n by simp
  show ?thesis
    unfolding py_slice_def e slice_pos_nat Let_def
    by (cases "i \<le> length s") (auto simp: min_def)
qed

lemma py_index_nonneg:
  "0 \<le> j \<Longrightarrow> py_index s j = (if nat j < length s then Inr (s ! nat j) else Inl IndexError)"
  by (auto simp: py_index_def Let_def)

lemma py_index_Inr_mem: "py_index s j = Inr x \<Longrightarrow> x \<in> set s"
  by (auto simp: py_index_def Let_def split: if_splits)


lemma set_update_subset: "set (AList.update k v al) \<subseteq> insert (k, v) (set al)"
  by (induction al) auto

lemma wf_counter_incr:
  assumes "c \<in> A" and "ctr = [] \<or> wf_counter A ctr"
  shows "wf_counter A (counter_incr c ctr)"
proof -
  let ?v = "(case map_of ctr c of None \<Rightarrow> 0 | Some w \<Rightarrow> w) + 1"
  have d: "distinct (map fst ctr)" using assms(2) by (auto simp: wf_counter_def)
  have "set (AList.update c ?v ctr) \<subseteq> insert (c, ?v) (set ctr)"
    by (rule set_update_subset)
  moreover have "\<forall>p \<in> set ctr. fst p \<in> A \<and> 0 < snd p"
    using assms(2) by (auto simp: wf_counter_def)
  ultimately show ?thesis
    using assms(1) d
    by (auto simp: wf_counter_def counter_incr_def distinct_update update_nonempty)
qed

lemma wf_table_incr:
  assumes "pre \<noteq> []" and "nxt \<in> A" and "wf_table A t"
  shows "wf_table A (table_incr pre nxt t)"
proof -
  let ?old = "(case map_of t pre of None \<Rightarrow> [] | Some ctr \<Rightarrow> ctr)"
  have d: "distinct (map fst t)" using assms(3) by (simp add: wf_table_def)
  have "?old = [] \<or> wf_counter A ?old"
  proof (cases "map_of t pre")
    case None then show ?thesis by simp
  next
    case (Some ctr)
    then have "(pre, ctr) \<in> set t" by (rule map_of_SomeD)
    then show ?thesis using assms(3) Some by (auto simp: wf_table_def)
  qed
  then have w: "wf_counter A (counter_incr nxt ?old)"
    using assms(2) by (intro wf_counter_incr)
  have "set (AList.update pre (counter_incr nxt ?old) t)
          \<subseteq> insert (pre, counter_incr nxt ?old) (set t)"
    by (rule set_update_subset)
  then show ?thesis
    using assms(1,3) w d
    by (auto simp: wf_table_def table_incr_def distinct_update)
qed

lemma wf_suffix_loop:
  "nxt \<in> A \<Longrightarrow> wf_table A t \<Longrightarrow> wf_table A (suffix_loop pre nxt t)"
  by (induction pre arbitrary: t) (simp_all add: wf_table_incr)

lemma wf_init_loop:
  "wf_table (set corpus) t \<Longrightarrow> init_loop corpus n is t = Inr t' \<Longrightarrow> wf_table (set corpus) t'"
proof (induction "is" arbitrary: t)
  case Nil
  then show ?case by simp
next
  case (Cons i "is")
  then show ?case
    by (auto simp: Let_def split: sum.splits intro: wf_suffix_loop py_index_Inr_mem)
qed

lemma wf_table_Nil: "wf_table A []"
  by (simp add: wf_table_def)

lemma wf_Ngram: "Ngram corpus n = Inr M \<Longrightarrow> wf_table (set corpus) (table M)"
  by (auto simp: Ngram_def split: sum.splits dest: wf_init_loop[OF wf_table_Nil])

subsection \<open>Counts of the table and the success of construction\<close>

lemma tcount_table_incr:
  "tcount (table_incr pre nxt t) k c = tcount t k c + (if k = pre \<and> c = nxt then 1 else 0)"
  by (auto simp: tcount_def table_incr_def counter_incr_def update_conv' split: option.splits)

lemma suffix_Cons_self: "\<not> suffix (x # xs) xs"
  by (auto dest: suffix_length_le)

lemma tcount_suffix_loop:
  "tcount (suffix_loop pre nxt t) k c =
     tcount t k c + (if k \<noteq> [] \<and> suffix k pre \<and> c = nxt then 1 else 0)"
proof (induction pre arbitrary: t)
  case Nil
  then show ?case by simp
next
  case (Cons x xs)
  show ?case
    by (auto simp: Cons.IH tcount_table_incr suffix_Cons suffix_Cons_self)
qed

lemma tcount_init_loop:
  assumes "init_loop corpus n is t = Inr t'" and "0 \<le> n"
    and "\<forall>i \<in> set is. i + nat n < length corpus"
  shows "tcount t' k c = tcount t k c +
     length (filter (\<lambda>i. k \<noteq> [] \<and> suffix k (take (nat n) (drop i corpus)) \<and>
                         corpus ! (i + nat n) = c) is)"
  using assms
proof (induction "is" arbitrary: t)
  case Nil
  then show ?case by simp
next
  case (Cons i "is")
  have j: "0 \<le> int i + n" "nat (int i + n) = i + nat n"
    using Cons.prems(2) by (simp_all add: nat_add_distrib)
  have lt: "i + nat n < length corpus" using Cons.prems(3) by simp
  have idx: "py_index corpus (int i + n) = Inr (corpus ! (i + nat n))"
    using lt by (simp add: py_index_nonneg[OF j(1)] j(2))
  have step: "init_loop corpus n is
                (suffix_loop (take (nat n) (drop i corpus)) (corpus ! (i + nat n)) t) = Inr t'"
    using Cons.prems(1) by (simp add: idx py_slice_nonneg[OF Cons.prems(2)])
  have "tcount t' k c =
          tcount (suffix_loop (take (nat n) (drop i corpus)) (corpus ! (i + nat n)) t) k c +
          length (filter (\<lambda>i. k \<noteq> [] \<and> suffix k (take (nat n) (drop i corpus)) \<and>
                              corpus ! (i + nat n) = c) is)"
    using Cons.IH[OF step Cons.prems(2)] Cons.prems(3) by simp
  then show ?case
    by (auto simp: tcount_suffix_loop)
qed

lemma init_loop_ok:
  assumes "\<forall>i \<in> set is. - int (length corpus) \<le> int i + n \<and> int i + n < int (length corpus)"
  shows "\<exists>t'. init_loop corpus n is t = Inr t'"
  using assms
proof (induction "is" arbitrary: t)
  case Nil
  then show ?case by simp
next
  case (Cons i "is")
  have "\<exists>x. py_index corpus (int i + n) = Inr x"
    using Cons.prems by (auto simp: py_index_def Let_def)
  then show ?case using Cons by (auto simp: Let_def)
qed

lemma Ngram_ok:
  assumes "- int (length corpus) \<le> n"
  shows "\<exists>t. Ngram corpus n = Inr \<lparr>table = t, ngram_n = n\<rparr>"
proof -
  have "\<forall>i \<in> set [0 ..< nat (int (length corpus) - n)].
          - int (length corpus) \<le> int i + n \<and> int i + n < int (length corpus)"
    using assms by auto
  from init_loop_ok[OF this, of "[]"] show ?thesis
    by (auto simp: Ngram_def)
qed

lemma Ngram_fails:
  assumes "n < - int (length corpus)"
  shows "Ngram corpus n = Inl IndexError"
proof -
  have "0 < nat (int (length corpus) - n)" using assms by simp
  then have u: "[0 ..< nat (int (length corpus) - n)] = 0 # [Suc 0 ..< nat (int (length corpus) - n)]"
    by (simp add: upt_conv_Cons)
  have "py_index corpus n = Inl IndexError"
    using assms by (simp add: py_index_def Let_def)
  then show ?thesis
    by (simp add: Ngram_def u Let_def)
qed

lemma Ngram_counts:
  assumes "Ngram corpus n = Inr M" and "0 \<le> n"
  shows "tcount (table M) k c = length (observations corpus (nat n) k c)"
proof -
  obtain t where t: "init_loop corpus n [0 ..< nat (int (length corpus) - n)] [] = Inr t"
    and M: "M = \<lparr>table = t, ngram_n = n\<rparr>"
    using assms(1) by (auto simp: Ngram_def split: sum.splits)
  have r: "nat (int (length corpus) - n) = length corpus - nat n"
    using assms(2) by linarith
  have "\<forall>i \<in> set [0 ..< length corpus - nat n]. i + nat n < length corpus"
    by auto
  from tcount_init_loop[OF t[unfolded r] assms(2) this, of k c]
  show ?thesis
    by (simp add: M observations_def tcount_def)
qed

lemma wf_key_iff_count:
  assumes "wf_table A t"
  shows "k \<in> fst ` set t \<longleftrightarrow> (\<exists>c. 0 < tcount t k c)"
proof
  assume "k \<in> fst ` set t"
  then obtain ctr where m: "(k, ctr) \<in> set t" by auto
  then have s: "map_of t k = Some ctr"
    using assms by (simp add: wf_table_def)
  have w: "wf_counter A ctr" using assms m by (auto simp: wf_table_def)
  then obtain c v where cv: "(c, v) \<in> set ctr" by (cases ctr) (auto simp: wf_counter_def)
  then have "map_of ctr c = Some v" "0 < v"
    using w by (auto simp: wf_counter_def)
  then have "0 < tcount t k c"
    using s by (simp add: tcount_def)
  then show "\<exists>c. 0 < tcount t k c" ..
next
  assume "\<exists>c. 0 < tcount t k c"
  then have "map_of t k \<noteq> None"
    by (auto simp: tcount_def split: option.splits)
  then obtain ctr where "map_of t k = Some ctr" by auto
  then have "(k, ctr) \<in> set t" by (rule map_of_SomeD)
  then show "k \<in> fst ` set t" by force
qed

subsection \<open>The weighted draw\<close>

lemma length_accumulate [simp]: "length (accumulate a ws) = length ws"
  by (induction ws arbitrary: a) auto

lemma accumulate_Nil_iff [simp]: "accumulate a ws = [] \<longleftrightarrow> ws = []"
  by (cases ws) auto

lemma last_accumulate: "ws \<noteq> [] \<Longrightarrow> last (accumulate a ws) = a + sum_list ws"
  by (induction ws arbitrary: a) (auto simp: add.assoc)

lemma bisect_le: "bisect cum x hi \<le> hi"
proof -
  have "length (takeWhile (\<lambda>w. w \<le> x) (take hi cum)) \<le> length (take hi cum)"
    by (rule length_takeWhile_le)
  then show ?thesis by (simp add: bisect_def)
qed


lemma search_Cons:
  "length (takeWhile (\<lambda>v. v \<le> a + r) (accumulate a (w # ws))) =
     (if r < w then 0
      else Suc (length (takeWhile (\<lambda>v. v \<le> (a + w) + (r - w)) (accumulate (a + w) ws))))"
  by auto



lemma sum_list_pos:
  "ws \<noteq> [] \<Longrightarrow> \<forall>w \<in> set ws. 0 < w \<Longrightarrow> 0 < sum_list (ws :: nat list)"
  by (cases ws) auto

lemma wf_counter_total: "wf_counter A ctr \<Longrightarrow> 0 < sum_list (map snd ctr)"
  by (rule sum_list_pos) (auto simp: wf_counter_def)

lemma draw_Nil: "draw [] g = Inl IndexError"
  by (simp add: draw_def choices_def)

lemma draw_zero: "ctr \<noteq> [] \<Longrightarrow> sum_list (map snd ctr) = 0 \<Longrightarrow> draw ctr g = Inl ValueError"
proof -
  assume ne: "ctr \<noteq> []" and z: "sum_list (map snd ctr) = 0"
  have l: "last (accumulate 0 (map snd ctr)) = 0"
    using ne z by (simp add: last_accumulate del: sum_list_eq_0_iff)
  show ?thesis
    unfolding draw_def choices_def Let_def l using ne by simp
qed

lemma draw_eq:
  assumes "ctr \<noteq> []" and "0 < sum_list (map snd ctr)"
  shows "draw ctr g =
           Inr (map fst ctr ! bisect (accumulate 0 (map snd ctr))
                                (tape g (pos g) mod sum_list (map snd ctr)) (length ctr - 1),
                g\<lparr>pos := Suc (pos g)\<rparr>)"
proof -
  have l: "last (accumulate 0 (map snd ctr)) = sum_list (map snd ctr)"
    using assms(1) by (simp add: last_accumulate)
  have nz: "(sum_list (map snd ctr) = 0) = False"
    using assms(2) by (simp del: sum_list_eq_0_iff)
  show ?thesis
    unfolding draw_def choices_def Let_def l randbelow_def nz
    using assms(1) by simp
qed

lemma draw_ok:
  assumes "wf_counter A ctr"
  shows "\<exists>c. draw ctr g = Inr (c, g\<lparr>pos := Suc (pos g)\<rparr>) \<and> c \<in> fst ` set ctr \<and> c \<in> A"
proof -
  have ne: "ctr \<noteq> []" using assms by (simp add: wf_counter_def)
  let ?i = "bisect (accumulate 0 (map snd ctr))
              (tape g (pos g) mod sum_list (map snd ctr)) (length ctr - 1)"
  have "?i \<le> length ctr - 1" by (rule bisect_le)
  then have i: "?i < length ctr" using ne by (cases ctr) auto
  then have "ctr ! ?i \<in> set ctr" by simp
  then have "fst (ctr ! ?i) \<in> fst ` set ctr" "fst (ctr ! ?i) \<in> A"
    using assms by (auto simp: wf_counter_def)
  then show ?thesis
    using draw_eq[OF ne wf_counter_total[OF assms], of g] i by simp
qed

lemma draw_drawn:
  "draw ctr g = Inr (c, g') \<longleftrightarrow>
     drawn ctr (tape g (pos g)) = Some c \<and> g' = g\<lparr>pos := Suc (pos g)\<rparr>"
proof (cases "ctr = []")
  case True
  then show ?thesis by (simp add: draw_Nil drawn_def)
next
  case False
  show ?thesis
  proof (cases "sum_list (map snd ctr) = 0")
    case True
    then show ?thesis using False by (simp add: draw_zero drawn_def del: sum_list_eq_0_iff)
  next
    case False
    then have p: "0 < sum_list (map snd ctr)" by (simp del: sum_list_eq_0_iff)
    show ?thesis
      unfolding drawn_def draw_eq[OF \<open>ctr \<noteq> []\<close> p] by auto
  qed
qed







subsection \<open>Sampling and phrases\<close>

lemma choice_eq:
  "seq \<noteq> [] \<Longrightarrow>
     choice seq g = Inr (seq ! (tape g (pos g) mod length seq), g\<lparr>pos := Suc (pos g)\<rparr>)"
  by (simp add: choice_def randbelow_def)

lemma fallback_Nil: "fallback [] g = Inl IndexError"
  by (simp add: fallback_def choice_def)

lemma fallback_ok:
  assumes "wf_table A t" and "t \<noteq> []"
  shows "\<exists>c. fallback t g = Inr (c, g\<lparr>pos := pos g + 2\<rparr>) \<and> c \<in> A"
proof -
  let ?i = "tape g (pos g) mod length t"
  let ?g1 = "g\<lparr>pos := Suc (pos g)\<rparr>"
  have i: "?i < length t" using assms(2) by simp
  then have m: "t ! ?i \<in> set t" by simp
  have ch: "choice (map fst t) g = Inr (fst (t ! ?i), ?g1)"
    using assms(2) i by (simp add: choice_eq)
  have "(fst (t ! ?i), snd (t ! ?i)) \<in> set t" using m by simp
  then have look: "map_of t (fst (t ! ?i)) = Some (snd (t ! ?i))"
    using assms(1) by (simp add: wf_table_def)
  have "wf_counter A (snd (t ! ?i))"
    using assms(1) m by (auto simp: wf_table_def)
  from draw_ok[OF this, of ?g1]
  obtain c where "draw (snd (t ! ?i)) ?g1 = Inr (c, ?g1\<lparr>pos := Suc (pos ?g1)\<rparr>)" "c \<in> A"
    by auto
  then show ?thesis
    by (auto simp: fallback_def ch look)
qed

lemma getitem_loop_Nil_table: "getitem_loop [] pre g = Inl IndexError"
  by (induction pre) (simp_all add: fallback_Nil)

lemma getitem_loop_ok:
  assumes "wf_table A t" and "t \<noteq> []"
  shows "\<exists>c g'. getitem_loop t pre g = Inr (c, g') \<and> c \<in> A \<and> tape g' = tape g \<and>
                 pos g < pos g' \<and> pos g' \<le> pos g + 2"
proof (induction pre)
  case Nil
  from fallback_ok[OF assms, of g] show ?case by auto
next
  case (Cons x xs)
  show ?case
  proof (cases "map_of t (x # xs)")
    case None
    then show ?thesis using Cons.IH by simp
  next
    case (Some ctr)
    then have "(x # xs, ctr) \<in> set t" by (rule map_of_SomeD)
    then have "wf_counter A ctr" using assms(1) by (auto simp: wf_table_def)
    from draw_ok[OF this, of g] show ?thesis using Some by auto
  qed
qed








lemma phrase_loop_snoc:
  "phrase_loop M (Suc k) s g =
     (case phrase_loop M k s g of
        Inl e \<Rightarrow> Inl e
      | Inr (s1, g1) \<Rightarrow>
          (case getitem M s1 g1 of Inl e \<Rightarrow> Inl e | Inr (c, g2) \<Rightarrow> Inr (s1 @ [c], g2)))"
proof (induction k arbitrary: s g)
  case 0
  then show ?case by (simp split: sum.splits prod.splits)
next
  case (Suc k)
  show ?case
  proof (cases "getitem M s g")
    case (Inl e)
    then show ?thesis by simp
  next
    case (Inr r)
    obtain c g' where r: "r = (c, g')" by (cases r)
    have "phrase_loop M (Suc (Suc k)) s g = phrase_loop M (Suc k) (s @ [c]) g'"
      using Inr r by simp
    also note Suc.IH[of "s @ [c]" g']
    finally show ?thesis using Inr r by simp
  qed
qed

lemma phrase_loop_length:
  "phrase_loop M k s g = Inr (s', g') \<Longrightarrow> length s' = length s + k"
proof (induction k arbitrary: s g)
  case 0
  then show ?case by simp
next
  case (Suc k)
  then show ?case by (fastforce split: sum.splits)
qed

lemma getitem_ok:
  assumes "wf_table A (table M)" and "table M \<noteq> []"
  shows "\<exists>c g'. getitem M pre g = Inr (c, g') \<and> c \<in> A \<and> tape g' = tape g \<and>
                 pos g < pos g' \<and> pos g' \<le> pos g + 2"
  unfolding getitem_def by (rule getitem_loop_ok[OF assms])

lemma getitem_empty: "table M = [] \<Longrightarrow> getitem M pre g = Inl IndexError"
  by (simp add: getitem_def getitem_loop_Nil_table)

lemma phrase_loop_ok:
  assumes "wf_table A (table M)" and "table M \<noteq> []"
  shows "\<exists>s' g'. phrase_loop M k s g = Inr (s', g') \<and> set s' \<subseteq> set s \<union> A"
proof (induction k arbitrary: s g)
  case 0
  then show ?case by simp
next
  case (Suc k)
  from getitem_ok[OF assms, of s g]
  obtain c g1 where c: "getitem M s g = Inr (c, g1)" "c \<in> A" by auto
  from Suc.IH[of "s @ [c]" g1]
  obtain s' g' where "phrase_loop M k (s @ [c]) g1 = Inr (s', g')" "set s' \<subseteq> set (s @ [c]) \<union> A"
    by auto
  then show ?case using c by auto
qed

lemma phrase_loop_empty: "table M = [] \<Longrightarrow> phrase_loop M (Suc k) s g = Inl IndexError"
  by (simp add: getitem_empty)

subsection \<open>The template loop\<close>

lemma for_template_append:
  "for_template (A @ B) st =
     (case for_template A st of Inl e \<Rightarrow> Inl e | Inr st' \<Rightarrow> for_template B st')"
  by (induction A arbitrary: st) (auto split: sum.splits)

lemma pop_rev_drop:
  "k < length ph \<Longrightarrow> pop (rev (drop k ph)) = Inr (ph ! k, rev (drop (Suc k) ph))"
proof -
  assume "k < length ph"
  then have "drop k ph = ph ! k # drop (Suc k) ph"
    by (simp add: Cons_nth_drop_Suc)
  then show ?thesis by (simp add: pop_def)
qed

lemma length_digits: "length digits = 10"
  by (simp add: digits_def)

lemma length_punctuation: "length punctuation = 12"
  by (simp add: punctuation_def)

lemma choice_digits:
  "choice digits g = Inr (digits ! (tape g (pos g) mod 10), g\<lparr>pos := Suc (pos g)\<rparr>)"
proof -
  have "digits \<noteq> []" by (simp add: digits_def)
  from choice_eq[OF this, of g] show ?thesis by (simp only: length_digits)
qed

lemma choice_punctuation:
  "choice punctuation g = Inr (punctuation ! (tape g (pos g) mod 12), g\<lparr>pos := Suc (pos g)\<rparr>)"
proof -
  have "punctuation \<noteq> []" by (simp add: punctuation_def)
  from choice_eq[OF this, of g] show ?thesis by (simp only: length_punctuation)
qed

lemma choice_case:
  "choice [a, b] g = Inr ([a, b] ! (tape g (pos g) mod 2), g\<lparr>pos := Suc (pos g)\<rparr>)"
  by (simp add: choice_def randbelow_def numeral_2_eq_2)

lemma directive_letter:
  assumes "takes_letter c" and "k < length ph"
  shows "directive c (rev (drop k ph), pwd, g) =
           Inr (rev (drop (Suc k) ph), pwd @ [emit c (ph ! k) (tape g (pos g))],
                g\<lparr>pos := pos g + (if draws_random c then 1 else 0)\<rparr>)"
proof -
  consider "c = CHR ''u''" | "c = CHR ''l''" | "c = CHR ''m''"
    using assms(1) by (auto simp: takes_letter_def)
  then show ?thesis
  proof cases
    case 1
    then show ?thesis
      by (simp add: directive_def pop_rev_drop[OF assms(2)] emit_def draws_random_def)
  next
    case 2
    then show ?thesis
      by (simp add: directive_def pop_rev_drop[OF assms(2)] emit_def draws_random_def)
  next
    case 3
    then show ?thesis
      by (simp add: directive_def pop_rev_drop[OF assms(2)] emit_def draws_random_def
            choice_case del: nth_Cons_0)
  qed
qed

lemma directive_other:
  assumes "\<not> takes_letter c"
  shows "directive c (phr, pwd, g) =
           Inr (phr, pwd @ [emit c pc (tape g (pos g))],
                g\<lparr>pos := pos g + (if draws_random c then 1 else 0)\<rparr>)"
proof -
  have n: "c \<noteq> CHR ''u''" "c \<noteq> CHR ''l''" "c \<noteq> CHR ''m''"
    using assms by (auto simp: takes_letter_def)
  consider "c = CHR ''d''" | "c = CHR ''p''" | "c \<noteq> CHR ''d''" "c \<noteq> CHR ''p''"
    by auto
  then show ?thesis
  proof cases
    case 1
    then show ?thesis
      by (simp add: directive_def emit_def draws_random_def choice_digits)
  next
    case 2
    then show ?thesis
      by (simp add: directive_def emit_def draws_random_def choice_punctuation)
  next
    case 3
    then show ?thesis
      using n by (simp add: directive_def emit_def draws_random_def)
  qed
qed

lemma nletters_snoc: "nletters (T @ [c]) = nletters T + (if takes_letter c then 1 else 0)"
  by (simp add: nletters_def)

lemma ndraws_snoc: "ndraws (T @ [c]) = ndraws T + (if draws_random c then 1 else 0)"
  by (simp add: ndraws_def)

lemma for_template_run:
  assumes "nletters T \<le> length ph"
  shows "for_template T (rev ph, pwd, g) =
           Inr (rev (drop (nletters T) ph),
                pwd @ map (\<lambda>i. emit (T ! i) (ph ! nletters (take i T))
                                  (tape g (pos g + ndraws (take i T)))) [0 ..< length T],
                g\<lparr>pos := pos g + ndraws T\<rparr>)"
  using assms
proof (induction T rule: rev_induct)
  case Nil
  then show ?case by (simp add: nletters_def ndraws_def)
next
  case (snoc c T)
  let ?F = "\<lambda>T i. emit (T ! i) (ph ! nletters (take i T)) (tape g (pos g + ndraws (take i T)))"
  let ?g = "g\<lparr>pos := pos g + ndraws T\<rparr>"
  have le: "nletters T \<le> length ph"
    using snoc.prems by (simp add: nletters_snoc)
  have run: "for_template T (rev ph, pwd, g) =
               Inr (rev (drop (nletters T) ph), pwd @ map (?F T) [0 ..< length T], ?g)"
    by (rule snoc.IH[OF le])
  have old: "map (?F (T @ [c])) [0 ..< length T] = map (?F T) [0 ..< length T]"
    by (rule map_cong) (simp_all add: nth_append)
  have new: "?F (T @ [c]) (length T) = emit c (ph ! nletters T) (tape g (pos g + ndraws T))"
    by simp
  have out: "map (?F (T @ [c])) [0 ..< length (T @ [c])] =
               map (?F T) [0 ..< length T] @ [emit c (ph ! nletters T) (tape g (pos g + ndraws T))]"
    using old new by simp
  have step: "directive c (rev (drop (nletters T) ph), pwd @ map (?F T) [0 ..< length T], ?g) =
                Inr (rev (drop (nletters (T @ [c])) ph),
                     (pwd @ map (?F T) [0 ..< length T]) @
                        [emit c (ph ! nletters T) (tape g (pos g + ndraws T))],
                     g\<lparr>pos := pos g + ndraws (T @ [c])\<rparr>)"
  proof (cases "takes_letter c")
    case True
    then have "nletters T < length ph" using snoc.prems by (simp add: nletters_snoc)
    from directive_letter[OF True this, of "pwd @ map (?F T) [0 ..< length T]" ?g]
    show ?thesis using True by (simp add: nletters_snoc ndraws_snoc)
  next
    case False
    from directive_other[OF False, of "rev (drop (nletters T) ph)"
           "pwd @ map (?F T) [0 ..< length T]" ?g "ph ! nletters T"]
    show ?thesis using False by (simp add: nletters_snoc ndraws_snoc)
  qed
  show ?case
    unfolding for_template_append run out
    using step by simp
qed

lemma nletters_le: "nletters T \<le> length T"
  by (simp add: nletters_def)

lemma generate_password_run:
  assumes "phrase M (length T) g = Inr (ph, g1)"
  shows "generate_password M T g =
           Inr (concat (map (\<lambda>i. emit (T ! i) (ph ! nletters (take i T))
                                    (tape g1 (pos g1 + ndraws (take i T)))) [0 ..< length T]),
                g1\<lparr>pos := pos g1 + ndraws T\<rparr>)"
proof -
  have "length ph = length T"
    using assms phrase_loop_length[of M "length T" "[]" g ph g1] by (simp add: phrase_def)
  then have "nletters T \<le> length ph" by (simp add: nletters_le)
  from for_template_run[OF this, of "[]" g1] show ?thesis
    by (simp add: generate_password_def assms)
qed

lemma nletters_take_less:
  assumes "i < length T" and "takes_letter (T ! i)"
  shows "nletters (take i T) < nletters T"
proof -
  have "T = take i T @ T ! i # drop (Suc i) T"
    using assms(1) by (simp add: id_take_nth_drop)
  then have "nletters T = nletters (take i T) + nletters (T ! i # drop (Suc i) T)"
    unfolding nletters_def by (metis filter_append length_append)
  then show ?thesis using assms(2) by (simp add: nletters_def)
qed

subsection \<open>Empty and non-empty tables, and the specification of sampling\<close>

lemma Ngram_table_empty:
  "int (length corpus) \<le> n \<Longrightarrow> Ngram corpus n = Inr \<lparr>table = [], ngram_n = n\<rparr>"
  by (simp add: Ngram_def)

lemma init_loop_zero:
  "\<forall>i \<in> set is. i < length corpus \<Longrightarrow> init_loop corpus 0 is t = Inr t"
proof (induction "is" arbitrary: t)
  case Nil
  then show ?case by simp
next
  case (Cons i "is")
  have "py_slice corpus (int i) (int i) = []"
    using py_slice_nonneg[of 0 corpus i] by simp
  moreover have "py_index corpus (int i) = Inr (corpus ! i)"
    using Cons.prems by (simp add: py_index_nonneg)
  ultimately show ?case using Cons by (simp add: Let_def)
qed

lemma Ngram_zero: "Ngram corpus 0 = Inr \<lparr>table = [], ngram_n = 0\<rparr>"
proof -
  have "init_loop corpus 0 [0 ..< length corpus] [] = Inr []"
    by (rule init_loop_zero) simp
  then show ?thesis by (simp add: Ngram_def)
qed

lemma observations_first:
  assumes "1 \<le> n" and "n < length corpus"
  shows "0 \<in> set (observations corpus n (take n corpus) (corpus ! n))"
proof -
  have "take n corpus \<noteq> []" using assms by auto
  then show ?thesis using assms by (simp add: observations_def)
qed

lemma Ngram_table_nonempty:
  assumes "Ngram corpus n = Inr M" and "1 \<le> n" and "n < int (length corpus)"
  shows "table M \<noteq> []"
proof -
  have "0 \<in> set (observations corpus (nat n) (take (nat n) corpus) (corpus ! nat n))"
    using assms(2,3) by (intro observations_first) auto
  then have "0 < length (observations corpus (nat n) (take (nat n) corpus) (corpus ! nat n))"
    by (auto simp: length_greater_0_conv)
  then have "0 < tcount (table M) (take (nat n) corpus) (corpus ! nat n)"
    using Ngram_counts[OF assms(1), of "take (nat n) corpus" "corpus ! nat n"] assms(2) by simp
  then show ?thesis by (auto simp: tcount_def)
qed

lemma observations_key_length:
  assumes "observations corpus n k c \<noteq> []"
  shows "1 \<le> length k \<and> length k \<le> n"
proof -
  obtain i where "i \<in> set (observations corpus n k c)"
    using assms by (cases "observations corpus n k c") auto
  then have k: "k \<noteq> []" "suffix k (take n (drop i corpus))"
    by (auto simp: observations_def)
  from suffix_length_le[OF k(2)] have "length k \<le> n" by simp
  then show ?thesis using k(1) by (cases k) auto
qed

lemma getitem_loop_Nil_fallback: "getitem_loop [] pre g = fallback [] g"
  by (simp add: getitem_loop_Nil_table fallback_Nil)






subsection \<open>Further facts about sampling, phrases and passwords\<close>




lemma draw_Inr_rng: "draw ctr g = Inr (c, g') \<Longrightarrow> g' = g\<lparr>pos := Suc (pos g)\<rparr>"
  by (simp add: draw_drawn)

lemma fallback_Inr_rng:
  "fallback t g = Inr (c, g') \<Longrightarrow> tape g' = tape g \<and> pos g' = pos g + 2"
  by (auto simp: fallback_def choice_def randbelow_def
           split: if_splits option.splits dest!: draw_Inr_rng)

lemma getitem_loop_Inr_rng:
  "getitem_loop t pre g = Inr (c, g') \<Longrightarrow>
     tape g' = tape g \<and> pos g < pos g' \<and> pos g' \<le> pos g + 2"
proof (induction pre)
  case Nil
  then show ?case using fallback_Inr_rng[of t g c g'] by simp
next
  case (Cons x xs)
  then show ?case by (auto split: option.splits dest!: draw_Inr_rng)
qed

lemma phrase_loop_rng:
  "phrase_loop M k s g = Inr (s', g') \<Longrightarrow> tape g' = tape g \<and> pos g \<le> pos g'"
proof (induction k arbitrary: s g)
  case 0
  then show ?case by simp
next
  case (Suc k)
  from Suc.prems obtain c g1 where
    c: "getitem M s g = Inr (c, g1)" and r: "phrase_loop M k (s @ [c]) g1 = Inr (s', g')"
    by (auto split: sum.splits)
  from getitem_loop_Inr_rng[OF c[unfolded getitem_def]] Suc.IH[OF r]
  show ?case by simp
qed

lemma phrase_loop_set:
  assumes "wf_table A (table M)" and "phrase_loop M k s g = Inr (s', g')"
  shows "set s' \<subseteq> set s \<union> A"
proof (cases "table M = []")
  case True
  then have "k = 0" using assms(2) by (cases k) (simp_all add: getitem_empty)
  then show ?thesis using assms(2) by simp
next
  case False
  from phrase_loop_ok[OF assms(1) False, of k s g] assms(2) show ?thesis by auto
qed

lemma ndraws_take_le: "a \<le> b \<Longrightarrow> ndraws (take a T) \<le> ndraws (take b T)"
proof -
  assume "a \<le> b"
  then have "take b T = take a T @ take (b - a) (drop a T)"
    using take_add[of a "b - a" T] by simp
  then show ?thesis by (simp add: ndraws_def)
qed

lemma ndraws_take_less:
  assumes "j < i" and "i \<le> length T" and "draws_random (T ! j)"
  shows "ndraws (take j T) < ndraws (take i T)"
proof -
  have "take (Suc j) T = take j T @ [T ! j]"
    using assms(1,2) by (simp add: take_Suc_conv_app_nth)
  then have "ndraws (take (Suc j) T) = Suc (ndraws (take j T))"
    using assms(3) by (simp add: ndraws_snoc)
  moreover have "ndraws (take (Suc j) T) \<le> ndraws (take i T)"
    using assms(1) by (intro ndraws_take_le) simp
  ultimately show ?thesis by simp
qed

lemma nletters_take_Suc:
  "i < length T \<Longrightarrow>
     nletters (take (Suc i) T) = nletters (take i T) + (if takes_letter (T ! i) then 1 else 0)"
  by (simp add: take_Suc_conv_app_nth nletters_snoc)

lemma phrase_length: "phrase M k g = Inr (ph, g1) \<Longrightarrow> length ph = k"
  using phrase_loop_length[of M k "[]" g ph g1] by (simp add: phrase_def)

lemma generate_password_parts:
  assumes "phrase M (length T) g = Inr (ph, g1)"
  shows "\<exists>phr' parts g2.
           for_template T (rev ph, [], g1) = Inr (phr', parts, g2) \<and>
           generate_password M T g = Inr (concat parts, g2) \<and>
           length parts = length T \<and>
           (\<forall>i < length T. parts ! i = emit (T ! i) (ph ! nletters (take i T))
                                         (tape g1 (pos g1 + ndraws (take i T))))"
proof -
  have "length ph = length T" by (rule phrase_length[OF assms])
  then have "nletters T \<le> length ph" by (simp add: nletters_le)
  from for_template_run[OF this, of "[]" g1] show ?thesis
    by (simp add: generate_password_def assms)
qed

lemma length_upper_ascii: "(of_char c :: nat) < 128 \<Longrightarrow> length (upper c) = 1"
  by (simp add: upper_def Let_def)

lemma length_lower_ascii: "(of_char c :: nat) < 128 \<Longrightarrow> length (lower c) = 1"
  by (simp add: lower_def Let_def)

lemma length_emit_letter:
  "(of_char pc :: nat) < 128 \<Longrightarrow> length (emit c pc r) = 1"
proof -
  assume a: "(of_char pc :: nat) < 128"
  have "r mod 2 = 0 \<or> r mod 2 = 1" by auto
  then have "length ([lower pc, upper pc] ! (r mod 2)) = 1"
    using length_upper_ascii[OF a] length_lower_ascii[OF a] by auto
  then show ?thesis
    using length_upper_ascii[OF a] by (simp add: emit_def)
qed

lemma length_emit_other: "\<not> takes_letter c \<Longrightarrow> length (emit c pc r) = 1"
  by (simp add: emit_def takes_letter_def)

lemma concat_singletons:
  "\<forall>p \<in> set parts. length p = 1 \<Longrightarrow>
     length (concat parts) = length parts \<and>
     (\<forall>i < length parts. [concat parts ! i] = parts ! i)"
proof (induction parts)
  case Nil
  then show ?case by simp
next
  case (Cons p parts)
  from Cons.prems obtain x where p: "p = [x]"
    by (cases p) auto
  have ih: "length (concat parts) = length parts"
    "\<forall>i < length parts. [concat parts ! i] = parts ! i"
    using Cons by auto
  have "[concat (p # parts) ! i] = (p # parts) ! i" if "i < length (p # parts)" for i
    using that ih(2) by (cases i) (auto simp: p)
  then show ?case using ih(1) by (simp add: p)
qed

lemma parts_singletons:
  assumes "wf_table A (table M)" and "ascii ph" and "length ph = length T"
  shows "\<forall>p \<in> set (map (\<lambda>i. emit (T ! i) (ph ! nletters (take i T)) (f i)) [0 ..< length T]).
           length p = 1"
proof -
  have "length (emit (T ! i) (ph ! nletters (take i T)) (f i)) = 1" if i: "i < length T" for i
  proof (cases "takes_letter (T ! i)")
    case True
    have "nletters (take i T) < nletters T" by (rule nletters_take_less[OF i True])
    then have "nletters (take i T) < length ph"
      using nletters_le[of T] assms(3) by simp
    then have "ph ! nletters (take i T) \<in> set ph" by simp
    then have "(of_char (ph ! nletters (take i T)) :: nat) < 128"
      using assms(2) by (simp add: ascii_def)
    then show ?thesis by (rule length_emit_letter)
  next
    case False
    then show ?thesis by (rule length_emit_other)
  qed
  then show ?thesis by auto
qed

lemma phrase_ascii:
  assumes "wf_table (set corpus) (table M)" and "ascii corpus"
    and "phrase M k g = Inr (ph, g1)"
  shows "ascii ph"
proof -
  have "set ph \<subseteq> set corpus"
    using phrase_loop_set[OF assms(1), of k "[]" g ph g1] assms(3) by (simp add: phrase_def)
  then show ?thesis using assms(2) by (auto simp: ascii_def)
qed

lemma generate_password_ok:
  assumes "wf_table (set corpus) (table M)" and "table M \<noteq> []"
  shows "\<exists>pwd g'. generate_password M T g = Inr (pwd, g') \<and>
                    (ascii corpus \<longrightarrow> length pwd = length T)"
proof -
  from phrase_loop_ok[OF assms, of "length T" "[]" g]
  obtain ph g1 where p: "phrase M (length T) g = Inr (ph, g1)"
    by (auto simp: phrase_def)
  let ?parts = "map (\<lambda>i. emit (T ! i) (ph ! nletters (take i T))
                              (tape g1 (pos g1 + ndraws (take i T)))) [0 ..< length T]"
  have "length (concat ?parts) = length T" if "ascii corpus"
  proof -
    have "ascii ph" by (rule phrase_ascii[OF assms(1) that p])
    from parts_singletons[OF assms(1) this phrase_length[OF p]]
    have "\<forall>q \<in> set ?parts. length q = 1" .
    from concat_singletons[OF this] show ?thesis by simp
  qed
  then show ?thesis
    by (simp add: generate_password_run[OF p])
qed

lemma generate_password_Nil: "generate_password M [] g = Inr ([], g)"
  by (simp add: generate_password_def phrase_def)

lemma emit_literal: "\<not> takes_letter c \<Longrightarrow> \<not> draws_random c \<Longrightarrow> emit c pc r = [c]"
  by (simp add: emit_def takes_letter_def draws_random_def)

lemma generate_password_literal:
  assumes "phrase M (length T) g = Inr (ph, g1)"
    and "\<forall>c \<in> set T. \<not> takes_letter c \<and> \<not> draws_random c"
  shows "generate_password M T g = Inr (T, g1)"
proof -
  have e: "map (\<lambda>i. emit (T ! i) (ph ! nletters (take i T))
                     (tape g1 (pos g1 + ndraws (take i T)))) [0 ..< length T]
          = map (\<lambda>i. [T ! i]) [0 ..< length T]"
    using assms(2) by (intro map_cong) (simp_all add: emit_literal)
  have c: "concat (map (\<lambda>i. [T ! i]) [0 ..< length T]) = T"
    using map_nth[of T] by (simp add: concat_map_singleton)
  have n: "ndraws T = 0"
    using assms(2) by (simp add: ndraws_def filter_empty_conv)
  show ?thesis
    unfolding generate_password_run[OF assms(1)] e c n by simp
qed

lemma ndraws_take_Suc:
  "i < length T \<Longrightarrow>
     ndraws (take (Suc i) T) = ndraws (take i T) + (if draws_random (T ! i) then 1 else 0)"
  by (simp add: take_Suc_conv_app_nth ndraws_snoc)

lemma directive_chars:
  "(takes_letter c \<or> draws_random c) \<longleftrightarrow> c \<in> set ''ulmdp''"
  by (auto simp: takes_letter_def draws_random_def)

lemma generate_password_l:
  "generate_password M (replicate k CHR ''l'') g = phrase M k g"
proof (cases "phrase M k g")
  case (Inl e)
  then show ?thesis by (simp add: generate_password_def)
next
  case (Inr r)
  obtain ph g1 where r: "r = (ph, g1)" by (cases r)
  let ?T = "replicate k CHR ''l''"
  have p: "phrase M (length ?T) g = Inr (ph, g1)"
    using Inr r by simp
  have len: "length ph = k" using phrase_length[OF p] by simp
  have nl: "nletters (replicate i CHR ''l'') = i" for i
    by (simp add: nletters_def takes_letter_def)
  have nd: "ndraws ?T = 0"
    by (simp add: ndraws_def draws_random_def)
  have e: "map (\<lambda>i. emit (?T ! i) (ph ! nletters (take i ?T))
                     (tape g1 (pos g1 + ndraws (take i ?T)))) [0 ..< length ?T]
          = map (\<lambda>i. [ph ! i]) [0 ..< k]"
    by (rule map_cong) (simp_all add: emit_def nl min_def)
  have c: "concat (map (\<lambda>i. [ph ! i]) [0 ..< k]) = ph"
    using map_nth[of ph] len by (simp add: concat_map_singleton)
  have "generate_password M ?T g = Inr (ph, g1)"
    unfolding generate_password_run[OF p] e c nd by simp
  then show ?thesis using Inr r by simp
qed

subsection \<open>Case forms and the strings of a password\<close>












lemma generate_password_string:
  assumes "wf_table (set corpus) (table M)" and "ascii corpus"
    and "phrase M (length T) g = Inr (ph, g1)"
  shows "\<exists>pwd g2. generate_password M T g = Inr (pwd, g2) \<and> length pwd = length T \<and>
           (\<forall>i < length T. [pwd ! i] = emit (T ! i) (ph ! nletters (take i T))
                                        (tape g1 (pos g1 + ndraws (take i T))))"
proof -
  let ?parts = "map (\<lambda>i. emit (T ! i) (ph ! nletters (take i T))
                              (tape g1 (pos g1 + ndraws (take i T)))) [0 ..< length T]"
  have "ascii ph" by (rule phrase_ascii[OF assms])
  from parts_singletons[OF assms(1) this phrase_length[OF assms(3)]]
  have "\<forall>q \<in> set ?parts. length q = 1" .
  from concat_singletons[OF this]
  have "length (concat ?parts) = length T"
    and "\<forall>i < length T. [concat ?parts ! i] = ?parts ! i"
    by simp_all
  then show ?thesis
    by (simp add: generate_password_run[OF assms(3)])
qed

lemma for_template_parts:
  assumes "length ph = length T"
  shows "\<exists>phr'. for_template T (rev ph, [], g1) =
           Inr (phr', map (\<lambda>i. emit (T ! i) (ph ! nletters (take i T))
                                 (tape g1 (pos g1 + ndraws (take i T)))) [0 ..< length T],
                g1\<lparr>pos := pos g1 + ndraws T\<rparr>)"
proof -
  have "nletters T \<le> length ph" using assms by (simp add: nletters_le)
  from for_template_run[OF this, of "[]" g1] show ?thesis by simp
qed

section \<open>The properties\<close>

subsection \<open>Construction of the table\<close>

text \<open>
  Claim C2. For an order \<open>n \<ge> 0\<close> construction returns a model, and its table is a
  flat dictionary (no key twice) in which the count of a context \<open>k\<close> and a next character
  \<open>c\<close> is the number of start indices \<open>i\<close> from 0 to \<open>len(corpus) - n - 1\<close> whose window
  \<open>corpus[i : i+n]\<close> has \<open>k\<close> as a non-empty suffix and is followed by \<open>c = corpus[i+n]\<close>:
  every window adds 1 for each of its non-empty suffixes, the counts add up over the
  windows, and a shorter context collects the observations of every window that ends with
  it. The keys are exactly the contexts with an observation, and their lengths are between
  1 and \<open>n\<close>.
\<close>

theorem Ngram_records_observations:
  assumes "0 \<le> n"
  shows "\<exists>M. Ngram corpus n = Inr M \<and> ngram_n M = n \<and>
           distinct (map fst (table M)) \<and>
           (\<forall>k c. tcount (table M) k c = length (observations corpus (nat n) k c)) \<and>
           (\<forall>k. k \<in> fst ` set (table M) \<longleftrightarrow> (\<exists>c. observations corpus (nat n) k c \<noteq> [])) \<and>
           (\<forall>k \<in> fst ` set (table M). 1 \<le> length k \<and> int (length k) \<le> n)"
proof -
  from Ngram_ok[of corpus n] assms obtain t where M: "Ngram corpus n = Inr \<lparr>table = t, ngram_n = n\<rparr>"
    by auto
  let ?M = "\<lparr>table = t, ngram_n = n\<rparr>"
  have wf: "wf_table (set corpus) (table ?M)" by (rule wf_Ngram[OF M])
  have cnt: "\<forall>k c. tcount (table ?M) k c = length (observations corpus (nat n) k c)"
    using Ngram_counts[OF M assms] by simp
  have keys: "\<forall>k. k \<in> fst ` set (table ?M) \<longleftrightarrow> (\<exists>c. observations corpus (nat n) k c \<noteq> [])"
    using wf_key_iff_count[OF wf] cnt by simp
  have len: "\<forall>k \<in> fst ` set (table ?M). 1 \<le> length k \<and> int (length k) \<le> n"
  proof
    fix k assume "k \<in> fst ` set (table ?M)"
    then obtain c where "observations corpus (nat n) k c \<noteq> []" using keys by blast
    from observations_key_length[OF this] show "1 \<le> length k \<and> int (length k) \<le> n"
      using assms by auto
  qed
  have "distinct (map fst (table ?M))" using wf by (simp add: wf_table_def)
  then show ?thesis using M cnt keys len by (intro exI[of _ ?M]) simp
qed

theorem Ngram_records_observations_witness:
  "(0::int) \<le> 1 \<and>
   Ngram ''abab'' 1 =
     Inr \<lparr>table = [(''a'', [(CHR ''b'', 2)]), (''b'', [(CHR ''a'', 1)])], ngram_n = 1\<rparr> \<and>
   tcount [(''a'', [(CHR ''b'', 2)]), (''b'', [(CHR ''a'', 1)])] ''a'' CHR ''b'' = 2 \<and>
   observations ''abab'' (nat 1) ''a'' CHR ''b'' = [0, 2]"
proof -
  have b: "Ngram ''abab'' 1 =
     Inr \<lparr>table = [(''a'', [(CHR ''b'', 2)]), (''b'', [(CHR ''a'', 1)])], ngram_n = 1\<rparr>"
    by code_simp
  have o: "observations ''abab'' (nat 1) ''a'' CHR ''b'' = [0, 2]"
    by code_simp
  from Ngram_records_observations[of 1 "''abab''"]
  have "tcount [(''a'', [(CHR ''b'', 2)]), (''b'', [(CHR ''a'', 1)])] ''a'' CHR ''b''
          = length (observations ''abab'' (nat 1) ''a'' CHR ''b'')"
    unfolding b by auto
  then show ?thesis using b o by simp
qed

text \<open>
  Claim C4, as the code has it. Construction defines and raises neither an EmptyCorpusError
  nor an InvalidOrderError and checks nothing. It returns a model for every corpus and
  every order \<open>n \<ge> - len(corpus)\<close>; when \<open>len(corpus) \<le> n\<close> or \<open>n = 0\<close> the table of that
  model is empty. Its only error is the IndexError of \<open>corpus[i + n]\<close>, raised exactly when
  \<open>n < - len(corpus)\<close>. On a model with an empty table the error appears later: every
  sampling call raises IndexError.
\<close>

theorem Ngram_construction_errors:
  "((\<exists>e. Ngram corpus n = Inl e) \<longleftrightarrow> n < - int (length corpus)) \<and>
   (n < - int (length corpus) \<longrightarrow> Ngram corpus n = Inl IndexError) \<and>
   (int (length corpus) \<le> n \<or> n = 0 \<longrightarrow> Ngram corpus n = Inr \<lparr>table = [], ngram_n = n\<rparr>) \<and>
   getitem \<lparr>table = [], ngram_n = n\<rparr> context g = Inl IndexError"
proof -
  have a: "(\<exists>e. Ngram corpus n = Inl e) \<longleftrightarrow> n < - int (length corpus)"
  proof (cases "n < - int (length corpus)")
    case True
    then show ?thesis by (simp add: Ngram_fails)
  next
    case False
    then have "- int (length corpus) \<le> n" by simp
    from Ngram_ok[OF this] show ?thesis using False by auto
  qed
  have b: "int (length corpus) \<le> n \<or> n = 0 \<longrightarrow> Ngram corpus n = Inr \<lparr>table = [], ngram_n = n\<rparr>"
    by (auto simp: Ngram_table_empty Ngram_zero)
  show ?thesis using a b by (simp add: Ngram_fails getitem_empty)
qed

theorem Ngram_construction_errors_witness:
  "int (length ''ab'') \<le> 3 \<and> Ngram ''ab'' 3 = Inr \<lparr>table = [], ngram_n = 3\<rparr> \<and>
   - 3 < - int (length ''ab'') \<and> Ngram ''ab'' (- 3) = Inl IndexError"
  using Ngram_construction_errors[of "''ab''" 3] Ngram_construction_errors[of "''ab''" "- 3"]
  by simp

theorem Ngram_raises_nothing_counterexample:
  "Ngram ''abc'' 3 = Inr \<lparr>table = [], ngram_n = 3\<rparr> \<and>
   Ngram ''abc'' 0 = Inr \<lparr>table = [], ngram_n = 0\<rparr> \<and>
   generate_password \<lparr>table = [], ngram_n = 3\<rparr> ''l'' \<lparr>tape = id, pos = 0\<rparr> = Inl IndexError"
  by (simp add: Ngram_table_empty Ngram_zero generate_password_def phrase_def getitem_empty)

subsection \<open>Sampling\<close>



text \<open>
  Claim C10. For every input with \<open>len(corpus) \<le> n\<close> construction completes and the table
  of the model is empty. On such a model every sampling call ends in the fallback, which
  raises IndexError because there is no key to choose; so does every phrase of positive
  length and every password for a template that is not empty, in particular one that
  contains u, l or m. For a constructed model the fallback, and sampling, fail exactly
  when the table is empty.
\<close>

theorem empty_table_model:
  assumes "int (length corpus) \<le> n"
  shows "Ngram corpus n = Inr \<lparr>table = [], ngram_n = n\<rparr> \<and>
         getitem \<lparr>table = [], ngram_n = n\<rparr> context g = fallback [] g \<and>
         fallback [] g = Inl IndexError \<and>
         phrase \<lparr>table = [], ngram_n = n\<rparr> (Suc k) g = Inl IndexError \<and>
         (template \<noteq> [] \<longrightarrow>
            generate_password \<lparr>table = [], ngram_n = n\<rparr> template g = Inl IndexError) \<and>
         (\<forall>corpus' n' M'. Ngram corpus' n' = Inr M' \<longrightarrow>
            ((\<exists>e. fallback (table M') g = Inl e) \<longleftrightarrow> table M' = []) \<and>
            ((\<exists>e. getitem M' context g = Inl e) \<longleftrightarrow> table M' = []))"
proof -
  have a: "Ngram corpus n = Inr \<lparr>table = [], ngram_n = n\<rparr>"
    using assms by (rule Ngram_table_empty)
  have b: "getitem \<lparr>table = [], ngram_n = n\<rparr> context g = fallback [] g"
    by (simp add: getitem_def getitem_loop_Nil_fallback)
  have c: "phrase \<lparr>table = [], ngram_n = n\<rparr> (Suc k) g = Inl IndexError"
    by (simp add: phrase_def getitem_empty)
  have d: "template \<noteq> [] \<longrightarrow>
            generate_password \<lparr>table = [], ngram_n = n\<rparr> template g = Inl IndexError"
  proof
    assume "template \<noteq> []"
    then obtain j where "length template = Suc j" by (cases template) auto
    then show "generate_password \<lparr>table = [], ngram_n = n\<rparr> template g = Inl IndexError"
      by (simp add: generate_password_def phrase_def getitem_empty)
  qed
  have e: "((\<exists>e. fallback (table M') g = Inl e) \<longleftrightarrow> table M' = []) \<and>
           ((\<exists>e. getitem M' context g = Inl e) \<longleftrightarrow> table M' = [])"
    if "Ngram corpus' n' = Inr M'" for corpus' n' M'
  proof (cases "table M' = []")
    case True
    then show ?thesis by (simp add: fallback_Nil getitem_empty)
  next
    case False
    have wf: "wf_table (set corpus') (table M')" by (rule wf_Ngram[OF that])
    from fallback_ok[OF wf False, of g] getitem_ok[OF wf False, of "context" g]
    show ?thesis using False by auto
  qed
  show ?thesis using a b c d e by (simp add: fallback_Nil)
qed

theorem empty_table_model_witness:
  "int (length ''ab'') \<le> 2 \<and> Ngram ''ab'' 2 = Inr \<lparr>table = [], ngram_n = 2\<rparr> \<and>
   generate_password \<lparr>table = [], ngram_n = 2\<rparr> ''dl'' \<lparr>tape = id, pos = 0\<rparr> = Inl IndexError"
  using empty_table_model[of "''ab''" 2 "[]" "\<lparr>tape = id, pos = 0\<rparr>" 0 "''dl''"]
  by simp



subsection \<open>Phrases\<close>

text \<open>
  Claim C8. A phrase of length 0 is the empty string, and a phrase of length \<open>k + 1\<close> is the
  phrase of length \<open>k\<close> followed by the character sampled with that whole phrase as
  context: the loop starts from the empty string and appends one sampled character per
  iteration. A phrase that is returned has exactly \<open>k\<close> characters, all of them characters
  of the corpus (so lowercase letters when the corpus has only those), and it is returned
  whenever the table is not empty. The phrase is consumed from left to right, in the order
  of its generation: the password of a template of \<open>k\<close> directives l is the phrase itself.
\<close>

theorem phrase_accumulates:
  assumes "Ngram corpus n = Inr M"
  shows "phrase M 0 g = Inr ([], g) \<and>
     phrase M (Suc k) g =
       (case phrase M k g of
          Inl e \<Rightarrow> Inl e
        | Inr (s, g1) \<Rightarrow>
            (case getitem M s g1 of Inl e \<Rightarrow> Inl e | Inr (c, g2) \<Rightarrow> Inr (s @ [c], g2))) \<and>
     (\<forall>s g'. phrase M k g = Inr (s, g') \<longrightarrow> length s = k \<and> set s \<subseteq> set corpus) \<and>
     (table M \<noteq> [] \<longrightarrow> (\<exists>s g'. phrase M k g = Inr (s, g'))) \<and>
     generate_password M (replicate k CHR ''l'') g = phrase M k g"
proof -
  have wf: "wf_table (set corpus) (table M)" by (rule wf_Ngram[OF assms])
  have a: "phrase M 0 g = Inr ([], g)" by (simp add: phrase_def)
  have b: "phrase M (Suc k) g =
       (case phrase M k g of
          Inl e \<Rightarrow> Inl e
        | Inr (s, g1) \<Rightarrow>
            (case getitem M s g1 of Inl e \<Rightarrow> Inl e | Inr (c, g2) \<Rightarrow> Inr (s @ [c], g2)))"
    unfolding phrase_def by (rule phrase_loop_snoc)
  have c: "\<forall>s g'. phrase M k g = Inr (s, g') \<longrightarrow> length s = k \<and> set s \<subseteq> set corpus"
    using phrase_length[of M k g] phrase_loop_set[OF wf, of k "[]" g]
    by (auto simp: phrase_def)
  have d: "table M \<noteq> [] \<longrightarrow> (\<exists>s g'. phrase M k g = Inr (s, g'))"
    using phrase_loop_ok[OF wf, of k "[]" g] by (auto simp: phrase_def)
  show ?thesis
    using a b c d generate_password_l[of M k g] by simp
qed

theorem phrase_accumulates_witness:
  "Ngram ''ab'' 1 = Inr \<lparr>table = [(''a'', [(CHR ''b'', 1)])], ngram_n = 1\<rparr> \<and>
   (\<exists>s g'. phrase \<lparr>table = [(''a'', [(CHR ''b'', 1)])], ngram_n = 1\<rparr> 3
              \<lparr>tape = id, pos = 0\<rparr> = Inr (s, g') \<and> length s = 3 \<and> set s \<subseteq> set ''ab'')"
proof -
  have b: "Ngram ''ab'' 1 = Inr \<lparr>table = [(''a'', [(CHR ''b'', 1)])], ngram_n = 1\<rparr>"
    by code_simp
  from phrase_accumulates[OF b, of "\<lparr>tape = id, pos = 0\<rparr>" 3]
  show ?thesis using b by fastforce
qed

subsection \<open>Passwords\<close>

text \<open>
  Claim C1, as the code has it. For every model constructed from a corpus and an order with
  \<open>len(corpus) > n \<ge> 1\<close> and for every template, generate_password returns a password
  without error; when the corpus is ASCII text, the length of the password is the length
  of the template. For the empty template it returns the empty string and leaves the
  random source alone.
\<close>

theorem generate_password_total:
  assumes "Ngram corpus n = Inr M" and "1 \<le> n" and "n < int (length corpus)"
  shows "(\<exists>pwd g'. generate_password M template g = Inr (pwd, g') \<and>
                   (ascii corpus \<longrightarrow> length pwd = length template)) \<and>
         generate_password M [] g = Inr ([], g)"
proof -
  have wf: "wf_table (set corpus) (table M)" by (rule wf_Ngram[OF assms(1)])
  have ne: "table M \<noteq> []" by (rule Ngram_table_nonempty[OF assms])
  from generate_password_ok[OF wf ne, of template g] show ?thesis
    by (simp add: generate_password_Nil)
qed

theorem generate_password_total_witness:
  "Ngram ''ab'' 1 = Inr \<lparr>table = [(''a'', [(CHR ''b'', 1)])], ngram_n = 1\<rparr> \<and>
   (1::int) \<le> 1 \<and> 1 < int (length ''ab'') \<and> ascii ''ab'' \<and>
   (\<exists>pwd g'. generate_password \<lparr>table = [(''a'', [(CHR ''b'', 1)])], ngram_n = 1\<rparr>
                ''llllllllddd'' \<lparr>tape = id, pos = 0\<rparr> = Inr (pwd, g') \<and>
              length pwd = length ''llllllllddd'')"
proof -
  have b: "Ngram ''ab'' 1 = Inr \<lparr>table = [(''a'', [(CHR ''b'', 1)])], ngram_n = 1\<rparr>"
    by code_simp
  have a: "ascii ''ab''" by (simp add: ascii_def)
  from generate_password_total[OF b, of "''llllllllddd''" "\<lparr>tape = id, pos = 0\<rparr>"]
  show ?thesis using a b by simp
qed

theorem generate_password_fails_counterexample:
  "Ngram ''hello'' 5 = Inr \<lparr>table = [], ngram_n = 5\<rparr> \<and>
   generate_password \<lparr>table = [], ngram_n = 5\<rparr> ''llllllllddd'' \<lparr>tape = id, pos = 0\<rparr>
     = Inl IndexError \<and>
   Ngram [CHR ''a'', CHR 0xDF] 1 = Inr \<lparr>table = [(''a'', [(CHR 0xDF, 1)])], ngram_n = 1\<rparr> \<and>
   generate_password \<lparr>table = [(''a'', [(CHR 0xDF, 1)])], ngram_n = 1\<rparr> ''u''
       \<lparr>tape = id, pos = 0\<rparr>
     = Inr (''SS'', \<lparr>tape = id, pos = 2\<rparr>)"
proof -
  have a: "Ngram ''hello'' 5 = Inr \<lparr>table = [], ngram_n = 5\<rparr>"
    by (simp add: Ngram_table_empty)
  have b: "generate_password \<lparr>table = [], ngram_n = 5\<rparr> ''llllllllddd''
             \<lparr>tape = id, pos = 0\<rparr> = Inl IndexError"
    by (simp add: generate_password_def phrase_def getitem_empty)
  have c: "Ngram [CHR ''a'', CHR 0xDF] 1 =
             Inr \<lparr>table = [(''a'', [(CHR 0xDF, 1)])], ngram_n = 1\<rparr>"
    by code_simp
  have u: "upper (CHR 0xDF) = ''SS''" by code_simp
  have d: "generate_password \<lparr>table = [(''a'', [(CHR 0xDF, 1)])], ngram_n = 1\<rparr> ''u''
             \<lparr>tape = id, pos = 0\<rparr> = Inr (''SS'', \<lparr>tape = id, pos = 2\<rparr>)"
    by (simp add: generate_password_def phrase_def getitem_def py_slice_from_def slice_pos_def
          fallback_def choice_def randbelow_def draw_def choices_def bisect_def
          directive_def pop_def u)
  show ?thesis using a b c d by simp
qed



text \<open>
  Claim C6, as the code has it. For a constructed model whose table is not empty,
  generate_password first generates the phrase and then runs the loop, which appends one
  string per template position. A position \<open>i\<close> that holds d gets the digit at a drawn index
  of the ten decimal digits, and a position that holds p gets the symbol at a drawn index
  of the twelve symbols \<open>! @ # $ % & * + - = ? ;\<close>; no character occurs twice in either
  pool, so every character of the pool belongs to exactly one index. These positions take
  no phrase letter: the body of the loop leaves the phrase as it is, the index of the next
  phrase letter is unchanged, and with any other phrase of the same length the loop
  appends the same string at \<open>i\<close>. The number drawn is read at a place of the tape that no
  earlier directive and no sampling call has read; which place it is depends on how many
  numbers the sampling calls have read. When the corpus is ASCII text, that string is the
  character at \<open>i\<close> of the password.
\<close>

theorem digit_and_punctuation_directives:
  assumes "Ngram corpus n = Inr M" and "table M \<noteq> []" and "i < length template"
  shows "\<exists>ph g1 phr' parts g2.
     phrase M (length template) g = Inr (ph, g1) \<and>
     for_template template (rev ph, [], g1) = Inr (phr', parts, g2) \<and>
     generate_password M template g = Inr (concat parts, g2) \<and>
     length parts = length template \<and>
     (template ! i = CHR ''d'' \<longrightarrow>
        parts ! i = [digits ! (tape g (pos g1 + ndraws (take i template)) mod 10)] \<and>
        digits ! (tape g (pos g1 + ndraws (take i template)) mod 10) \<in> set digits) \<and>
     (template ! i = CHR ''p'' \<longrightarrow>
        parts ! i = [punctuation ! (tape g (pos g1 + ndraws (take i template)) mod 12)] \<and>
        punctuation ! (tape g (pos g1 + ndraws (take i template)) mod 12) \<in> set punctuation) \<and>
     (template ! i = CHR ''d'' \<or> template ! i = CHR ''p'' \<longrightarrow>
        nletters (take (Suc i) template) = nletters (take i template) \<and>
        (\<forall>j<i. draws_random (template ! j) \<longrightarrow>
                 ndraws (take j template) < ndraws (take i template)) \<and>
        tape g1 = tape g \<and> pos g \<le> pos g1 \<and>
        (\<forall>ph'. length ph' = length template \<longrightarrow>
           (\<exists>phr'' parts' g2'.
              for_template template (rev ph', [], g1) = Inr (phr'', parts', g2') \<and>
              parts' ! i = parts ! i))) \<and>
     (ascii corpus \<longrightarrow>
        length (concat parts) = length template \<and> [concat parts ! i] = parts ! i) \<and>
     digits = ''0123456789'' \<and> distinct digits \<and> length digits = 10 \<and>
     punctuation = ''!@#$%&*+-=?;'' \<and> distinct punctuation \<and> length punctuation = 12 \<and>
     directive CHR ''d'' (phr, pw, g) =
       Inr (phr, pw @ [[digits ! (tape g (pos g) mod 10)]], g\<lparr>pos := Suc (pos g)\<rparr>) \<and>
     directive CHR ''p'' (phr, pw, g) =
       Inr (phr, pw @ [[punctuation ! (tape g (pos g) mod 12)]], g\<lparr>pos := Suc (pos g)\<rparr>)"
proof -
  let ?emit = "\<lambda>ph g1 i. emit (template ! i) (ph ! nletters (take i template))
                            (tape g1 (pos g1 + ndraws (take i template)))"
  have wf: "wf_table (set corpus) (table M)" by (rule wf_Ngram[OF assms(1)])
  from phrase_loop_ok[OF wf assms(2), of "length template" "[]" g]
  obtain ph g1 where p: "phrase M (length template) g = Inr (ph, g1)"
    by (auto simp: phrase_def)
  let ?parts = "map (?emit ph g1) [0 ..< length template]"
  have len: "length ph = length template" by (rule phrase_length[OF p])
  from for_template_parts[OF len, of g1] obtain phr' where
    run: "for_template template (rev ph, [], g1) =
            Inr (phr', ?parts, g1\<lparr>pos := pos g1 + ndraws template\<rparr>)"
    by blast
  have gp: "generate_password M template g =
              Inr (concat ?parts, g1\<lparr>pos := pos g1 + ndraws template\<rparr>)"
    by (rule generate_password_run[OF p])
  have nth: "?parts ! i = ?emit ph g1 i" using assms(3) by simp
  have rng: "tape g1 = tape g \<and> pos g \<le> pos g1"
    using phrase_loop_rng[of M "length template" "[]" g ph g1] p by (simp add: phrase_def)
  have d: "emit CHR ''d'' pc r = [digits ! (r mod 10)]"
    and q: "emit CHR ''p'' pc r = [punctuation ! (r mod 12)]" for pc r
    by (simp_all add: emit_def)
  have dm: "digits ! (r mod 10) \<in> set digits" for r
    by (rule nth_mem) (simp add: length_digits)
  have qm: "punctuation ! (r mod 12) \<in> set punctuation" for r
    by (rule nth_mem) (simp add: length_punctuation)
  have a: "template ! i = CHR ''d'' \<longrightarrow>
        ?parts ! i = [digits ! (tape g (pos g1 + ndraws (take i template)) mod 10)] \<and>
        digits ! (tape g (pos g1 + ndraws (take i template)) mod 10) \<in> set digits"
    using nth rng by (simp add: d dm)
  have b: "template ! i = CHR ''p'' \<longrightarrow>
        ?parts ! i = [punctuation ! (tape g (pos g1 + ndraws (take i template)) mod 12)] \<and>
        punctuation ! (tape g (pos g1 + ndraws (take i template)) mod 12) \<in> set punctuation"
    using nth rng by (simp add: q qm)
  have nl: "template ! i = CHR ''d'' \<or> template ! i = CHR ''p'' \<Longrightarrow>
              nletters (take (Suc i) template) = nletters (take i template)"
    using assms(3) by (auto simp: nletters_take_Suc takes_letter_def)
  have fresh: "\<forall>j<i. draws_random (template ! j) \<longrightarrow>
                 ndraws (take j template) < ndraws (take i template)"
    using assms(3) by (auto intro: ndraws_take_less)
  have indep: "\<exists>phr'' parts' g2'.
              for_template template (rev ph', [], g1) = Inr (phr'', parts', g2') \<and>
              parts' ! i = ?parts ! i"
    if c: "template ! i = CHR ''d'' \<or> template ! i = CHR ''p''"
      and l: "length ph' = length template" for ph'
  proof -
    from for_template_parts[OF l, of g1] obtain phr'' where
      "for_template template (rev ph', [], g1) =
         Inr (phr'', map (?emit ph' g1) [0 ..< length template],
              g1\<lparr>pos := pos g1 + ndraws template\<rparr>)"
      by blast
    moreover have "map (?emit ph' g1) [0 ..< length template] ! i = ?parts ! i"
      using c assms(3) by (auto simp: d q)
    ultimately show ?thesis by blast
  qed
  have c: "template ! i = CHR ''d'' \<or> template ! i = CHR ''p'' \<longrightarrow>
        nletters (take (Suc i) template) = nletters (take i template) \<and>
        (\<forall>j<i. draws_random (template ! j) \<longrightarrow>
                 ndraws (take j template) < ndraws (take i template)) \<and>
        tape g1 = tape g \<and> pos g \<le> pos g1 \<and>
        (\<forall>ph'. length ph' = length template \<longrightarrow>
           (\<exists>phr'' parts' g2'.
              for_template template (rev ph', [], g1) = Inr (phr'', parts', g2') \<and>
              parts' ! i = ?parts ! i))"
    using nl fresh rng indep by blast
  have s: "ascii corpus \<longrightarrow>
        length (concat ?parts) = length template \<and> [concat ?parts ! i] = ?parts ! i"
  proof
    assume "ascii corpus"
    then have "ascii ph" by (rule phrase_ascii[OF wf _ p])
    from parts_singletons[OF wf this len]
    have "\<forall>q \<in> set ?parts. length q = 1" .
    from concat_singletons[OF this] assms(3)
    show "length (concat ?parts) = length template \<and> [concat ?parts ! i] = ?parts ! i"
      by simp
  qed
  have pools: "digits = ''0123456789'' \<and> distinct digits \<and> length digits = 10 \<and>
     punctuation = ''!@#$%&*+-=?;'' \<and> distinct punctuation \<and> length punctuation = 12"
    by (simp add: digits_def punctuation_def)
  have dd: "directive CHR ''d'' (phr, pw, g) =
       Inr (phr, pw @ [[digits ! (tape g (pos g) mod 10)]], g\<lparr>pos := Suc (pos g)\<rparr>)"
    by (simp add: directive_def choice_digits)
  have dp: "directive CHR ''p'' (phr, pw, g) =
       Inr (phr, pw @ [[punctuation ! (tape g (pos g) mod 12)]], g\<lparr>pos := Suc (pos g)\<rparr>)"
    by (simp add: directive_def choice_punctuation)
  have lp: "length ?parts = length template" by simp
  show ?thesis
    apply (rule exI[of _ ph], rule exI[of _ g1], rule exI[of _ phr'], rule exI[of _ ?parts],
           rule exI[of _ "g1\<lparr>pos := pos g1 + ndraws template\<rparr>"])
    using p run gp lp a b c s pools dd dp by (simp only: simp_thms)
qed

theorem digit_and_punctuation_directives_witness:
  "Ngram ''ab'' 1 = Inr \<lparr>table = [(''a'', [(CHR ''b'', 1)])], ngram_n = 1\<rparr> \<and>
   table \<lparr>table = [(''a'', [(CHR ''b'', 1)])], ngram_n = 1\<rparr> \<noteq> [] \<and>
   0 < length ''dp'' \<and> ascii ''ab'' \<and>
   (\<exists>pwd g2. generate_password \<lparr>table = [(''a'', [(CHR ''b'', 1)])], ngram_n = 1\<rparr> ''dp''
                \<lparr>tape = id, pos = 0\<rparr> = Inr (pwd, g2) \<and>
              pwd ! 0 = CHR ''4'')"
proof -
  let ?M = "\<lparr>table = [(''a'', [(CHR ''b'', 1)])], ngram_n = 1\<rparr>"
  let ?g = "\<lparr>tape = id, pos = 0\<rparr>"
  have b: "Ngram ''ab'' 1 = Inr ?M" by code_simp
  have ne: "table ?M \<noteq> []" by simp
  have a: "ascii ''ab''" by (simp add: ascii_def)
  have i0: "0 < length ''dp''" by simp
  have p: "phrase ?M (length ''dp'') ?g = Inr (''bb'', \<lparr>tape = id, pos = 4\<rparr>)"
    by (simp add: phrase_def getitem_def py_slice_from_def slice_pos_def fallback_def
          choice_def randbelow_def draw_def choices_def bisect_def)
  from digit_and_punctuation_directives[OF b ne i0,
         where g = ?g and phr = "[]" and pw = "[]"] obtain ph g1 parts g2 where
    ph: "phrase ?M (length ''dp'') ?g = Inr (ph, g1)"
    and gp: "generate_password ?M ''dp'' ?g = Inr (concat parts, g2)"
    and d: "''dp'' ! 0 = CHR ''d'' \<longrightarrow>
              parts ! 0 = [digits ! (tape ?g (pos g1 + ndraws (take 0 ''dp'')) mod 10)] \<and>
              digits ! (tape ?g (pos g1 + ndraws (take 0 ''dp'')) mod 10) \<in> set digits"
    and s: "ascii ''ab'' \<longrightarrow>
              length (concat parts) = length ''dp'' \<and> [concat parts ! 0] = parts ! 0"
    by (elim exE conjE) (rule that, assumption+)
  have g1: "g1 = \<lparr>tape = id, pos = 4\<rparr>" using ph p by simp
  have "parts ! 0 = [CHR ''4'']"
    using d by (simp add: g1 ndraws_def digits_def)
  then have "concat parts ! 0 = CHR ''4''" using s a by simp
  then show ?thesis using b a gp by auto
qed

theorem digit_template_depends_on_model_counterexample:
  "Ngram ''abc'' 3 = Inr \<lparr>table = [], ngram_n = 3\<rparr> \<and>
   generate_password \<lparr>table = [], ngram_n = 3\<rparr> ''dddd'' \<lparr>tape = id, pos = 0\<rparr>
     = Inl IndexError \<and>
   generate_password \<lparr>table = [], ngram_n = 3\<rparr> ''pppp'' \<lparr>tape = id, pos = 0\<rparr>
     = Inl IndexError \<and>
   Ngram ''ab'' 1 = Inr \<lparr>table = [(''a'', [(CHR ''b'', 1)])], ngram_n = 1\<rparr> \<and>
   Ngram ''aa'' 1 = Inr \<lparr>table = [(''a'', [(CHR ''a'', 1)])], ngram_n = 1\<rparr> \<and>
   generate_password \<lparr>table = [(''a'', [(CHR ''b'', 1)])], ngram_n = 1\<rparr> ''dd''
       \<lparr>tape = id, pos = 0\<rparr>
     = Inr (''45'', \<lparr>tape = id, pos = 6\<rparr>) \<and>
   generate_password \<lparr>table = [(''a'', [(CHR ''a'', 1)])], ngram_n = 1\<rparr> ''dd''
       \<lparr>tape = id, pos = 0\<rparr>
     = Inr (''34'', \<lparr>tape = id, pos = 5\<rparr>)"
proof -
  have a: "Ngram ''abc'' 3 = Inr \<lparr>table = [], ngram_n = 3\<rparr>"
    by (simp add: Ngram_table_empty)
  have b: "generate_password \<lparr>table = [], ngram_n = 3\<rparr> ''dddd'' \<lparr>tape = id, pos = 0\<rparr>
             = Inl IndexError"
    "generate_password \<lparr>table = [], ngram_n = 3\<rparr> ''pppp'' \<lparr>tape = id, pos = 0\<rparr>
             = Inl IndexError"
    by (simp_all add: generate_password_def phrase_def getitem_empty)
  have c: "Ngram ''ab'' 1 = Inr \<lparr>table = [(''a'', [(CHR ''b'', 1)])], ngram_n = 1\<rparr>"
    "Ngram ''aa'' 1 = Inr \<lparr>table = [(''a'', [(CHR ''a'', 1)])], ngram_n = 1\<rparr>"
    by code_simp+
  have d: "generate_password \<lparr>table = [(''a'', [(CHR ''b'', 1)])], ngram_n = 1\<rparr> ''dd''
       \<lparr>tape = id, pos = 0\<rparr> = Inr (''45'', \<lparr>tape = id, pos = 6\<rparr>)"
    by (simp add: generate_password_def phrase_def getitem_def py_slice_from_def slice_pos_def
          fallback_def choice_def randbelow_def draw_def choices_def bisect_def
          directive_def digits_def)
  have e: "generate_password \<lparr>table = [(''a'', [(CHR ''a'', 1)])], ngram_n = 1\<rparr> ''dd''
       \<lparr>tape = id, pos = 0\<rparr> = Inr (''34'', \<lparr>tape = id, pos = 5\<rparr>)"
    by (simp add: generate_password_def phrase_def getitem_def py_slice_from_def slice_pos_def
          fallback_def choice_def randbelow_def draw_def choices_def bisect_def
          directive_def digits_def)
  show ?thesis using a b c d e by simp
qed

text \<open>
  Claim C7, as the code has it. A template character other than the lowercase u, l, m, d, p
  is appended to the password as it is, and the body of the loop leaves the phrase and the
  random source as they are; the uppercase U, L, M, D, P are such characters. For a
  constructed model whose table is not empty, a template without directives is returned
  unchanged, in particular \<open>X-Y\<close>; in any template the string appended for a position
  without a directive is the template's character, and when the corpus is ASCII text that
  character is at the same position of the password.
\<close>

theorem literal_characters:
  assumes "Ngram corpus n = Inr M" and "table M \<noteq> []"
  shows "(\<exists>g'. generate_password M ''X-Y'' g = Inr (''X-Y'', g')) \<and>
     ((\<forall>c \<in> set template. c \<notin> set ''ulmdp'') \<longrightarrow>
        (\<exists>g'. generate_password M template g = Inr (template, g'))) \<and>
     (ascii corpus \<longrightarrow>
        (\<forall>i < length template. template ! i \<notin> set ''ulmdp'' \<longrightarrow>
           (\<exists>pwd g2. generate_password M template g = Inr (pwd, g2) \<and>
              length pwd = length template \<and> pwd ! i = template ! i \<and>
              nletters (take (Suc i) template) = nletters (take i template) \<and>
              ndraws (take (Suc i) template) = ndraws (take i template)))) \<and>
     (\<forall>i < length template. template ! i \<notin> set ''ulmdp'' \<longrightarrow>
        (\<exists>ph g1 phr' parts g2.
           phrase M (length template) g = Inr (ph, g1) \<and>
           for_template template (rev ph, [], g1) = Inr (phr', parts, g2) \<and>
           generate_password M template g = Inr (concat parts, g2) \<and>
           length parts = length template \<and> parts ! i = [template ! i] \<and>
           nletters (take (Suc i) template) = nletters (take i template) \<and>
           ndraws (take (Suc i) template) = ndraws (take i template))) \<and>
     (c \<notin> set ''ulmdp'' \<longrightarrow> directive c (phr, pw, g) = Inr (phr, pw @ [[c]], g)) \<and>
     set ''ULMDP'' \<inter> set ''ulmdp'' = {} \<and>
     ((takes_letter c \<or> draws_random c) \<longleftrightarrow> c \<in> set ''ulmdp'')"
proof -
  have wf: "wf_table (set corpus) (table M)" by (rule wf_Ngram[OF assms(1)])
  have ph: "\<exists>ph g1. phrase M (length T) g = Inr (ph, g1)" for T
    using phrase_loop_ok[OF wf assms(2), of "length T" "[]" g] by (auto simp: phrase_def)
  have all: "\<exists>g'. generate_password M T g = Inr (T, g')" if "\<forall>c \<in> set T. c \<notin> set ''ulmdp''" for T
  proof -
    from ph[of T] obtain ph g1 where p: "phrase M (length T) g = Inr (ph, g1)" by blast
    have "\<forall>c \<in> set T. \<not> takes_letter c \<and> \<not> draws_random c"
      using that directive_chars by blast
    from generate_password_literal[OF p this] show ?thesis by blast
  qed
  have xy: "\<exists>g'. generate_password M ''X-Y'' g = Inr (''X-Y'', g')"
    by (rule all) simp
  have one: "\<exists>ph g1 phr' parts g2.
           phrase M (length template) g = Inr (ph, g1) \<and>
           for_template template (rev ph, [], g1) = Inr (phr', parts, g2) \<and>
           generate_password M template g = Inr (concat parts, g2) \<and>
           length parts = length template \<and> parts ! i = [template ! i] \<and>
           nletters (take (Suc i) template) = nletters (take i template) \<and>
           ndraws (take (Suc i) template) = ndraws (take i template)"
    if i: "i < length template" and c: "template ! i \<notin> set ''ulmdp''" for i
  proof -
    from ph[of template] obtain ph g1 where p: "phrase M (length template) g = Inr (ph, g1)"
      by blast
    have n: "\<not> takes_letter (template ! i)" "\<not> draws_random (template ! i)"
      using c directive_chars by blast+
    from generate_password_parts[OF p] obtain phr' parts g2 where
      r: "for_template template (rev ph, [], g1) = Inr (phr', parts, g2)"
         "generate_password M template g = Inr (concat parts, g2)"
         "length parts = length template"
         "\<forall>i < length template. parts ! i = emit (template ! i) (ph ! nletters (take i template))
                                         (tape g1 (pos g1 + ndraws (take i template)))"
      by blast
    have "parts ! i = [template ! i]"
      using r(4) i n by (simp add: emit_literal)
    then show ?thesis
      using p r(1,2,3) n i by (auto simp: nletters_take_Suc ndraws_take_Suc)
  qed
  have str: "\<exists>pwd g2. generate_password M template g = Inr (pwd, g2) \<and>
              length pwd = length template \<and> pwd ! i = template ! i \<and>
              nletters (take (Suc i) template) = nletters (take i template) \<and>
              ndraws (take (Suc i) template) = ndraws (take i template)"
    if a: "ascii corpus" and i: "i < length template" and c: "template ! i \<notin> set ''ulmdp''" for i
  proof -
    from ph[of template] obtain ph g1 where p: "phrase M (length template) g = Inr (ph, g1)"
      by blast
    have n: "\<not> takes_letter (template ! i)" "\<not> draws_random (template ! i)"
      using c directive_chars by blast+
    from generate_password_string[OF wf a p] obtain pwd g2 where
      r: "generate_password M template g = Inr (pwd, g2)" "length pwd = length template"
         "\<forall>i < length template. [pwd ! i] = emit (template ! i) (ph ! nletters (take i template))
                                         (tape g1 (pos g1 + ndraws (take i template)))"
      by blast
    have "[pwd ! i] = [template ! i]"
      using r(3) i n by (simp add: emit_literal)
    then show ?thesis
      using r(1,2) n i by (auto simp: nletters_take_Suc ndraws_take_Suc)
  qed
  have step: "c \<notin> set ''ulmdp'' \<longrightarrow> directive c (phr, pw, g) = Inr (phr, pw @ [[c]], g)"
    by (simp add: directive_def)
  have up: "set ''ULMDP'' \<inter> set ''ulmdp'' = {}" by simp
  show ?thesis
    using xy all[of template] one str step up directive_chars[of c] by blast
qed

theorem literal_characters_witness:
  "Ngram ''ab'' 1 = Inr \<lparr>table = [(''a'', [(CHR ''b'', 1)])], ngram_n = 1\<rparr> \<and>
   table \<lparr>table = [(''a'', [(CHR ''b'', 1)])], ngram_n = 1\<rparr> \<noteq> [] \<and>
   (\<exists>g'. generate_password \<lparr>table = [(''a'', [(CHR ''b'', 1)])], ngram_n = 1\<rparr> ''X-Y''
            \<lparr>tape = id, pos = 0\<rparr> = Inr (''X-Y'', g')) \<and>
   (\<exists>g'. generate_password \<lparr>table = [(''a'', [(CHR ''b'', 1)])], ngram_n = 1\<rparr> ''ULMDP''
            \<lparr>tape = id, pos = 0\<rparr> = Inr (''ULMDP'', g'))"
proof -
  have b: "Ngram ''ab'' 1 = Inr \<lparr>table = [(''a'', [(CHR ''b'', 1)])], ngram_n = 1\<rparr>"
    by code_simp
  have ne: "table \<lparr>table = [(''a'', [(CHR ''b'', 1)])], ngram_n = 1\<rparr> \<noteq> []" by simp
  from literal_characters[OF b ne, where template = "''ULMDP''" and g = "\<lparr>tape = id, pos = 0\<rparr>"]
  show ?thesis using b by simp
qed

theorem literal_template_fails_counterexample:
  "Ngram ''abc'' 3 = Inr \<lparr>table = [], ngram_n = 3\<rparr> \<and>
   generate_password \<lparr>table = [], ngram_n = 3\<rparr> ''X-Y'' \<lparr>tape = id, pos = 0\<rparr>
     = Inl IndexError"
  by (simp add: Ngram_table_empty generate_password_def phrase_def getitem_empty)

end
